theory Spec2Isabelle
  imports Main "HOL-Library.Word" "HOL-Library.Signed_Division" "HOL-Library.Multiset"
begin

section \<open>Connection state tracking (internal/metrics/connstate.go)\<close>

text \<open>
  Go's \<^verbatim>\<open>atomic.Int64\<close> counters are 64-bit words: \<^verbatim>\<open>Add\<close> wraps around.
  \<^verbatim>\<open>http.ConnState\<close> is an integer type (\<^verbatim>\<open>type ConnState int\<close>) with five declared
  constants, numbered from 0 in the order below. The switch statements of the tracker
  have one branch per constant and no default: any other value matches no branch.
\<close>

type_synonym int64 = "64 word"

type_synonym ConnState = int

definition StateNew :: ConnState where
  "StateNew = 0"

definition StateActive :: ConnState where
  "StateActive = 1"

definition StateIdle :: ConnState where
  "StateIdle = 2"

definition StateHijacked :: ConnState where
  "StateHijacked = 3"

definition StateClosed :: ConnState where
  "StateClosed = 4"

record 'conn ConnStateCounter =
  stateNew :: int64
  stateActive :: int64
  stateIdle :: int64
  stateHijacked :: int64
  totalAccepted :: int64
  totalClosed :: int64
  connStates :: "'conn \<rightharpoonup> ConnState"

definition NewConnStateCounter :: "'conn ConnStateCounter" where
  "NewConnStateCounter =
     \<lparr>stateNew = 0, stateActive = 0, stateIdle = 0, stateHijacked = 0,
      totalAccepted = 0, totalClosed = 0, connStates = Map.empty\<rparr>"

text \<open>
  \<^verbatim>\<open>decrementState\<close>: the switch has no branch for \<^verbatim>\<open>StateClosed\<close>, and none for a
  value that is not a declared constant.
\<close>

definition decrementState :: "'conn ConnStateCounter \<Rightarrow> ConnState \<Rightarrow> 'conn ConnStateCounter" where
  "decrementState c state =
     (if state = StateNew then c\<lparr>stateNew := stateNew c - 1\<rparr>
      else if state = StateActive then c\<lparr>stateActive := stateActive c - 1\<rparr>
      else if state = StateIdle then c\<lparr>stateIdle := stateIdle c - 1\<rparr>
      else if state = StateHijacked then c\<lparr>stateHijacked := stateHijacked c - 1\<rparr>
      else c)"

text \<open>
  \<^verbatim>\<open>TrackConnState\<close>, the part under the lock (the logging after the unlock changes
  no counter): the previous state's counter goes down when the connection is in the map,
  then the switch on the new state. A state that matches no branch leaves the map and
  the remaining counters as they are after the decrement.
\<close>

definition TrackConnState ::
  "'conn ConnStateCounter \<Rightarrow> 'conn \<Rightarrow> ConnState \<Rightarrow> 'conn ConnStateCounter" where
  "TrackConnState c conn state =
     (let c1 = (case connStates c conn of
                  Some prevState \<Rightarrow> decrementState c prevState
                | None \<Rightarrow> c)
      in if state = StateNew then
           c1\<lparr>stateNew := stateNew c1 + 1, totalAccepted := totalAccepted c1 + 1,
              connStates := (connStates c1)(conn \<mapsto> state)\<rparr>
         else if state = StateActive then
           c1\<lparr>stateActive := stateActive c1 + 1,
              connStates := (connStates c1)(conn \<mapsto> state)\<rparr>
         else if state = StateIdle then
           c1\<lparr>stateIdle := stateIdle c1 + 1,
              connStates := (connStates c1)(conn \<mapsto> state)\<rparr>
         else if state = StateHijacked then
           c1\<lparr>stateHijacked := stateHijacked c1 + 1,
              connStates := (connStates c1)(conn \<mapsto> state)\<rparr>
         else if state = StateClosed then
           c1\<lparr>connStates := (connStates c1)(conn := None),
              totalClosed := totalClosed c1 + 1\<rparr>
         else c1)"

text \<open>A sequence of hook calls, applied in order.\<close>

fun TrackAll ::
  "'conn ConnStateCounter \<Rightarrow> ('conn \<times> ConnState) list \<Rightarrow> 'conn ConnStateCounter" where
  "TrackAll c [] = c"
| "TrackAll c ((conn, state) # calls) = TrackAll (TrackConnState c conn state) calls"

text \<open>The sum of the four live counters, and the invariant of the data model.\<close>

definition live_sum :: "'conn ConnStateCounter \<Rightarrow> int64" where
  "live_sum c = stateNew c + stateActive c + stateIdle c + stateHijacked c"

definition balanced :: "'conn ConnStateCounter \<Rightarrow> bool" where
  "balanced c \<longleftrightarrow> live_sum c = totalAccepted c - totalClosed c"

text \<open>
  The calls that keep the invariant, which are the calls \<^verbatim>\<open>http.Server\<close> makes:
  \<^verbatim>\<open>StateActive\<close>, \<^verbatim>\<open>StateIdle\<close>, \<^verbatim>\<open>StateHijacked\<close> and \<^verbatim>\<open>StateClosed\<close> for an
  identity that is in the map, and \<^verbatim>\<open>StateNew\<close> for an identity that is not. (A value
  that is no declared constant changes nothing for an identity that is not in the map,
  and is admitted there.)
\<close>

definition lifecycle_ok :: "'conn ConnStateCounter \<Rightarrow> 'conn \<Rightarrow> ConnState \<Rightarrow> bool" where
  "lifecycle_ok c conn state =
     (if state = StateActive \<or> state = StateIdle \<or> state = StateHijacked \<or> state = StateClosed
      then connStates c conn \<noteq> None
      else connStates c conn = None)"

fun follows_lifecycle :: "'conn ConnStateCounter \<Rightarrow> ('conn \<times> ConnState) list \<Rightarrow> bool" where
  "follows_lifecycle c [] = True"
| "follows_lifecycle c ((conn, state) # calls) =
     (lifecycle_ok c conn state \<and> follows_lifecycle (TrackConnState c conn state) calls)"

text \<open>The map holds live states only: the four states that have a counter.\<close>

definition live_entries :: "'conn ConnStateCounter \<Rightarrow> bool" where
  "live_entries c \<longleftrightarrow>
     ran (connStates c) \<subseteq> {StateNew, StateActive, StateIdle, StateHijacked}"

section \<open>Load generator (cmd/loadgen/main.go)\<close>

subsection \<open>Latency statistics\<close>

text \<open>
  \<^verbatim>\<open>time.Duration\<close> is an \<^verbatim>\<open>int64\<close> count of nanoseconds: sums wrap around, and
  comparisons and division read the word as a signed number (\<^term>\<open>sint\<close>).
\<close>

type_synonym Duration = int64

definition Millisecond :: Duration where
  "Millisecond = 1000000"

text \<open>
  \<^verbatim>\<open>percentile\<close>. The index is computed on Go's \<^verbatim>\<open>int\<close>, where \<^verbatim>\<open>/\<close> truncates
  towards zero (\<^term>\<open>(sdiv)\<close> on \<^typ>\<open>int\<close>); the product cannot overflow for a slice
  of 8-byte elements that fits in memory. An index outside the slice is a run-time
  panic, the value \<^term>\<open>None\<close> here.
\<close>

definition percentile :: "Duration list \<Rightarrow> int \<Rightarrow> Duration option" where
  "percentile sorted_s p =
     (if length sorted_s = 0 then Some 0
      else let idx = ((int (length sorted_s) - 1) * p) sdiv 100
           in if 0 \<le> idx \<and> idx < int (length sorted_s) then Some (sorted_s ! nat idx)
              else None)"

text \<open>
  Division of two \<^verbatim>\<open>int64\<close> values in Go: the quotient truncated towards zero, wrapped
  to 64 bits; a zero divisor panics (\<^term>\<open>None\<close>).
\<close>

definition int64_div :: "int64 \<Rightarrow> int64 \<Rightarrow> int64 option" where
  "int64_div a b = (if b = 0 then None else Some (word_of_int (sint a sdiv sint b)))"

text \<open>
  The latency block of \<^verbatim>\<open>printResults\<close>: the four values it computes from the copied
  sample list. \<^verbatim>\<open>sort.Slice\<close> with the comparison \<^verbatim>\<open>latencies[i] < latencies[j]\<close>
  leaves the slice in ascending signed order (\<^term>\<open>sort_key sint\<close>: samples that
  compare equal are equal, so the order of the result is determined). The sum is the
  \<^verbatim>\<open>for range\<close> loop over the sorted slice, the divisor is \<^verbatim>\<open>time.Duration(len(latencies))\<close>.
  With no sample the four variables keep their zero value.
\<close>

record LatencyReport =
  avgLatency :: Duration
  p50 :: Duration
  p95 :: Duration
  p99 :: Duration

definition latency_stats :: "Duration list \<Rightarrow> LatencyReport option" where
  "latency_stats latencies0 =
     (if length latencies0 > 0 then
        (let latencies = sort_key sint latencies0;
             sum = foldl (\<lambda>sum l. sum + l) 0 latencies
         in case int64_div sum (of_nat (length latencies)) of
              None \<Rightarrow> None
            | Some avg \<Rightarrow>
                (case percentile latencies 50 of
                   None \<Rightarrow> None
                 | Some q50 \<Rightarrow>
                     (case percentile latencies 95 of
                        None \<Rightarrow> None
                      | Some q95 \<Rightarrow>
                          (case percentile latencies 99 of
                             None \<Rightarrow> None
                           | Some q99 \<Rightarrow>
                               Some \<lparr>avgLatency = avg, p50 = q50, p95 = q95, p99 = q99\<rparr>))))
      else Some \<lparr>avgLatency = 0, p50 = 0, p95 = 0, p99 = 0\<rparr>)"

subsection \<open>Workers\<close>

text \<open>The package-level \<^verbatim>\<open>Stats\<close> value of the load generator, zero at start.\<close>

record loadgen_Stats =
  totalRequests :: int64
  successCount :: int64
  errorCount :: int64
  totalLatencyNs :: int64
  latencies :: "Duration list"

definition loadgen_stats0 :: loadgen_Stats where
  "loadgen_stats0 =
     \<lparr>totalRequests = 0, successCount = 0, errorCount = 0, totalLatencyNs = 0, latencies = []\<rparr>"

text \<open>
  What the network gives one \<^verbatim>\<open>doRequest\<close> call: \<^verbatim>\<open>client.Get\<close> fails, or it returns
  a response with a status code whose body is then drained with or without an error.
\<close>

datatype http_outcome = GetFailed | GotResponse (StatusCode: int) (body_drained: bool)

datatype request_error = TransportError | BodyReadError | HTTPStatusError int

definition doRequest :: "http_outcome \<Rightarrow> request_error option" where
  "doRequest out =
     (case out of
        GetFailed \<Rightarrow> Some TransportError
      | GotResponse code drained \<Rightarrow>
          if \<not> drained then Some BodyReadError
          else if code \<ge> 400 then Some (HTTPStatusError code)
          else None)"

text \<open>
  One worker goroutine, as a program counter over the statements of its loop body and
  the requests it still has to make (outcome and measured latency of each). Every atomic
  \<^verbatim>\<open>Add\<close> and the locked \<^verbatim>\<open>append\<close> is one step, so that workers interleave between
  them. A worker at the loop head with no request left sees the closed stop channel and
  returns.
\<close>

datatype worker_pc =
    AtLoopHead
  | Requested "request_error option" Duration
  | CountedTotal "request_error option" Duration
  | CountedLatency "request_error option" Duration
  | CountedSuccess Duration
  | WorkerDone

type_synonym worker_state = "worker_pc \<times> (http_outcome \<times> Duration) list"

fun worker_step :: "worker_state \<Rightarrow> loadgen_Stats \<Rightarrow> worker_state \<times> loadgen_Stats" where
  "worker_step (AtLoopHead, []) st = ((WorkerDone, []), st)"
| "worker_step (AtLoopHead, (out, latency) # todo) st =
     ((Requested (doRequest out) latency, todo), st)"
| "worker_step (Requested err latency, todo) st =
     ((CountedTotal err latency, todo), st\<lparr>totalRequests := totalRequests st + 1\<rparr>)"
| "worker_step (CountedTotal err latency, todo) st =
     ((CountedLatency err latency, todo), st\<lparr>totalLatencyNs := totalLatencyNs st + latency\<rparr>)"
| "worker_step (CountedLatency err latency, todo) st =
     (case err of
        Some e \<Rightarrow> ((AtLoopHead, todo), st\<lparr>errorCount := errorCount st + 1\<rparr>)
      | None \<Rightarrow> ((CountedSuccess latency, todo), st\<lparr>successCount := successCount st + 1\<rparr>))"
| "worker_step (CountedSuccess latency, todo) st =
     ((AtLoopHead, todo), st\<lparr>latencies := latencies st @ [latency]\<rparr>)"
| "worker_step (WorkerDone, todo) st = ((WorkerDone, todo), st)"

text \<open>
  The pool: all workers and the shared statistics. A schedule names, step by step, the
  worker that runs next.
\<close>

type_synonym pool = "worker_state list \<times> loadgen_Stats"

definition start_pool :: "(http_outcome \<times> Duration) list list \<Rightarrow> pool" where
  "start_pool requests = (map (\<lambda>todo. (AtLoopHead, todo)) requests, loadgen_stats0)"

fun run_schedule :: "nat list \<Rightarrow> pool \<Rightarrow> pool" where
  "run_schedule [] pl = pl"
| "run_schedule (i # sched) (ws, st) =
     (if i < length ws
      then (case worker_step (ws ! i) st of (w, st') \<Rightarrow> run_schedule sched (ws[i := w], st'))
      else run_schedule sched (ws, st))"

text \<open>
  A worker is between iterations at the loop head or after its return; the pool is
  quiescent when every worker is, and stopped when every worker has returned.
\<close>

fun between_iterations :: "worker_state \<Rightarrow> bool" where
  "between_iterations (AtLoopHead, todo) = True"
| "between_iterations (WorkerDone, todo) = True"
| "between_iterations (pc, todo) = False"

definition quiescent :: "worker_state list \<Rightarrow> bool" where
  "quiescent ws = list_all between_iterations ws"

definition all_stopped :: "worker_state list \<Rightarrow> bool" where
  "all_stopped ws = list_all (\<lambda>w. w = (WorkerDone, [])) ws"

text \<open>A worker that has added to totalRequests and not yet to successCount or errorCount.\<close>

fun in_flight :: "worker_state \<Rightarrow> int64" where
  "in_flight (CountedTotal err latency, todo) = 1"
| "in_flight (CountedLatency err latency, todo) = 1"
| "in_flight (pc, todo) = 0"

text \<open>The requests of a worker that totalRequests does not count yet.\<close>

fun not_yet_counted :: "worker_state \<Rightarrow> nat" where
  "not_yet_counted (Requested err latency, todo) = Suc (length todo)"
| "not_yet_counted (pc, todo) = length todo"

text \<open>A worker whose current and remaining requests all end in an error.\<close>

fun only_errors :: "worker_state \<Rightarrow> bool" where
  "only_errors (Requested err latency, todo) =
     (err \<noteq> None \<and> list_all (\<lambda>r. doRequest (fst r) \<noteq> None) todo)"
| "only_errors (CountedTotal err latency, todo) =
     (err \<noteq> None \<and> list_all (\<lambda>r. doRequest (fst r) \<noteq> None) todo)"
| "only_errors (CountedLatency err latency, todo) =
     (err \<noteq> None \<and> list_all (\<lambda>r. doRequest (fst r) \<noteq> None) todo)"
| "only_errors (CountedSuccess latency, todo) = False"
| "only_errors (pc, todo) = list_all (\<lambda>r. doRequest (fst r) \<noteq> None) todo"

text \<open>Every request of every worker is answered with the given status code.\<close>

definition all_status :: "int \<Rightarrow> (http_outcome \<times> Duration) list list \<Rightarrow> bool" where
  "all_status code requests =
     list_all (list_all (\<lambda>r. case fst r of GetFailed \<Rightarrow> False
                                | GotResponse c drained \<Rightarrow> c = code)) requests"

section \<open>Slow-connection simulator (cmd/slowloris/main.go)\<close>

record Config =
  Target :: string
  NumConns :: int
  Delay :: Duration
  Duration :: Duration
  KeepOpen :: bool
  Debug :: bool
  ReportInterval :: Duration

text \<open>The package-level \<^verbatim>\<open>Stats\<close> value of the simulator.\<close>

record slowloris_Stats =
  activeConns :: int64
  totalConns :: int64
  closedByServer :: int64
  errors :: int64
  headersSent :: int64

subsection \<open>Lines on the wire\<close>

definition CR :: char where
  "CR = CHR 0x0D"

definition LF :: char where
  "LF = CHR 0x0A"

definition CRLF :: string where
  "CRLF = [CR, LF]"

text \<open>
  The verb \<^verbatim>\<open>%d\<close> of \<^verbatim>\<open>fmt\<close> on an integer: its decimal digits, after a minus sign
  when it is negative.
\<close>

definition digit_char :: "nat \<Rightarrow> char" where
  "digit_char d = ''0123456789'' ! d"

fun digits :: "nat \<Rightarrow> string" where
  "digits n = (if n < 10 then [digit_char n] else digits (n div 10) @ [digit_char (n mod 10)])"

declare digits.simps [simp del]

definition fmt_d :: "int \<Rightarrow> string" where
  "fmt_d i = (if i < 0 then CHR ''-'' # digits (nat (- i)) else digits (nat i))"

text \<open>
  A connection is the log of the \<^verbatim>\<open>Write\<close> calls made on it: the bytes handed to
  each call and whether the call succeeded. A failed call may still have sent the first
  \<open>n\<close> bytes. \<^verbatim>\<open>fmt.Fprintf\<close> formats the line and hands it to one \<^verbatim>\<open>Write\<close> call.
\<close>

datatype write_result = WriteOk | WriteFailed nat

type_synonym conn_log = "(string \<times> write_result) list"

definition conn_write :: "conn_log \<Rightarrow> string \<Rightarrow> write_result \<Rightarrow> conn_log" where
  "conn_write conn line res = conn @ [(line, res)]"



subsection \<open>performSlowloris\<close>

text \<open>
  What the one-byte \<^verbatim>\<open>Peek\<close> under the 1 ms read deadline returns: data, a
  \<^verbatim>\<open>net.Error\<close> whose \<^verbatim>\<open>Timeout()\<close> is true, or any other error (EOF, reset).
\<close>

datatype peek_result = PeekData | PeekTimeout | PeekClosed

text \<open>
  What the environment decides in one round of the header loop: which case the
  \<^verbatim>\<open>select\<close> takes, the result of the peek, the clock reading and the result of the
  write.
\<close>

record tick_env =
  ctx_done :: bool
  peek :: peek_result
  now :: int
  write_res :: write_result

datatype tick_outcome = Continue int | Return bool

definition header_line :: "int \<Rightarrow> int \<Rightarrow> string" where
  "header_line headerNum nano = ''X-Slowloris-'' @ fmt_d headerNum @ '': '' @ fmt_d nano @ CRLF"

type_synonym sl_state = "slowloris_Stats \<times> conn_log"

text \<open>One round of the \<^verbatim>\<open>for\<close> loop of \<^verbatim>\<open>performSlowloris\<close>.\<close>

definition header_tick ::
  "Config \<Rightarrow> int \<Rightarrow> tick_env \<Rightarrow> sl_state \<Rightarrow> tick_outcome \<times> sl_state" where
  "header_tick cfg headerNum t s =
     (case s of (st, conn) \<Rightarrow>
        if ctx_done t then (Return False, st, conn)
        else
          (case peek t of
             PeekData \<Rightarrow> (Return False, st, conn)
           | PeekClosed \<Rightarrow> (Return True, st, conn)
           | PeekTimeout \<Rightarrow>
               (let headerNum' = headerNum + 1;
                    headerLine = header_line headerNum' (now t);
                    conn' = conn_write conn headerLine (write_res t)
                in case write_res t of
                     WriteFailed n \<Rightarrow> (Return True, st, conn')
                   | WriteOk \<Rightarrow>
                       (let st' = st\<lparr>headersSent := headersSent st + 1\<rparr>
                        in if \<not> KeepOpen cfg \<and> headerNum' \<ge> 10
                           then (Return False, st', conn')
                           else (Continue headerNum', st', conn')))))"

text \<open>
  The loop over the rounds the environment provides. With \<^verbatim>\<open>keep-open\<close> set and a
  peer that never reacts the loop does not end: when the rounds are used up the worker
  is still in the loop.
\<close>

datatype perform_result = Finished bool | StillInLoop

fun header_loop ::
  "Config \<Rightarrow> int \<Rightarrow> tick_env list \<Rightarrow> sl_state \<Rightarrow> perform_result \<times> sl_state" where
  "header_loop cfg headerNum [] s = (StillInLoop, s)"
| "header_loop cfg headerNum (t # ts) s =
     (case header_tick cfg headerNum t s of
        (Continue headerNum', s') \<Rightarrow> header_loop cfg headerNum' ts s'
      | (Return b, s') \<Rightarrow> (Finished b, s'))"

text \<open>
  The environment of one call: the results of the three leading writes, the two
  checks of the stop channel between them, and the rounds of the loop.
\<close>

record perform_env =
  write1 :: write_result
  ctx1 :: bool
  write2 :: write_result
  ctx2 :: bool
  write3 :: write_result
  ticks :: "tick_env list"

text \<open>The three lines every connection starts with, from their format strings.\<close>

definition request_line :: "int \<Rightarrow> string" where
  "request_line id' = ''GET /?worker='' @ fmt_d id' @ '' HTTP/1.1'' @ CRLF"

definition host_line :: "string \<Rightarrow> string" where
  "host_line target = ''Host: '' @ target @ CRLF"

definition user_agent_line :: string where
  "user_agent_line = ''User-Agent: slowloris-go/1.0'' @ CRLF"

definition performSlowloris ::
  "Config \<Rightarrow> int \<Rightarrow> perform_env \<Rightarrow> sl_state \<Rightarrow> perform_result \<times> sl_state" where
  "performSlowloris cfg id' env s =
     (case s of (st, conn) \<Rightarrow>
        (let conn1 = conn_write conn (request_line id') (write1 env)
         in case write1 env of
              WriteFailed n \<Rightarrow> (Finished True, st, conn1)
            | WriteOk \<Rightarrow>
                (let st1 = st\<lparr>headersSent := headersSent st + 1\<rparr>
                 in if ctx1 env then (Finished False, st1, conn1)
                    else
                      (let conn2 = conn_write conn1 (host_line (Target cfg)) (write2 env)
                       in case write2 env of
                            WriteFailed n \<Rightarrow> (Finished True, st1, conn2)
                          | WriteOk \<Rightarrow>
                              (let st2 = st1\<lparr>headersSent := headersSent st1 + 1\<rparr>
                               in if ctx2 env then (Finished False, st2, conn2)
                                  else
                                    (let conn3 = conn_write conn2 user_agent_line (write3 env)
                                     in case write3 env of
                                          WriteFailed n \<Rightarrow> (Finished True, st2, conn3)
                                        | WriteOk \<Rightarrow>
                                            header_loop cfg 0 (ticks env)
                                              (st2\<lparr>headersSent := headersSent st2 + 1\<rparr>,
                                               conn3)))))))"

subsection \<open>slowlorisWorker\<close>

text \<open>
  After \<^verbatim>\<open>performSlowloris\<close> has returned: the connection is closed, the active
  count goes down, and a close by the server is counted.
\<close>

definition close_conn :: "bool \<Rightarrow> slowloris_Stats \<Rightarrow> slowloris_Stats" where
  "close_conn closed st =
     (let st1 = st\<lparr>activeConns := activeConns st - 1\<rparr>
      in if closed then st1\<lparr>closedByServer := closedByServer st1 + 1\<rparr> else st1)"

datatype dial_result = DialFailed | DialOk

text \<open>
  The environment of one round of the worker loop: the stop channel at the top, the
  result of the dial, the environment of \<^verbatim>\<open>performSlowloris\<close>, and the stop channel
  in the \<^verbatim>\<open>select\<close> before the reconnect.
\<close>

record attempt_env =
  ctx_top :: bool
  dial :: dial_result
  perform :: perform_env
  ctx_after :: bool

datatype worker_status = WorkerReturned | WorkerInConnection | WorkerAtLoopTop

text \<open>
  The worker loop over the rounds the environment provides, on the shared statistics
  and the logs of the connections the worker has opened so far.
\<close>

fun slowlorisWorker ::
  "Config \<Rightarrow> int \<Rightarrow> attempt_env list \<Rightarrow> slowloris_Stats \<times> conn_log list \<Rightarrow>
   worker_status \<times> slowloris_Stats \<times> conn_log list" where
  "slowlorisWorker cfg id' [] s = (WorkerAtLoopTop, s)"
| "slowlorisWorker cfg id' (a # rest) (st, conns) =
     (if ctx_top a then (WorkerReturned, st, conns)
      else
        (case dial a of
           DialFailed \<Rightarrow> slowlorisWorker cfg id' rest (st\<lparr>errors := errors st + 1\<rparr>, conns)
         | DialOk \<Rightarrow>
             (let st1 = st\<lparr>totalConns := totalConns st + 1\<rparr>;
                  st2 = st1\<lparr>activeConns := activeConns st1 + 1\<rparr>
              in case performSlowloris cfg id' (perform a) (st2, []) of
                   (StillInLoop, st3, conn) \<Rightarrow> (WorkerInConnection, st3, conns @ [conn])
                 | (Finished closed, st3, conn) \<Rightarrow>
                     (let st4 = close_conn closed st3
                      in if ctx_after a then (WorkerReturned, st4, conns @ [conn])
                         else slowlorisWorker cfg id' rest (st4, conns @ [conn])))))"

subsection \<open>What a well-formed header line is\<close>

text \<open>A line break (CR LF) somewhere in the bytes.\<close>

fun has_crlf :: "string \<Rightarrow> bool" where
  "has_crlf (a # b # s) = ((a = CR \<and> b = LF) \<or> has_crlf (b # s))"
| "has_crlf s = False"


text \<open>
  A single non-empty line that ends in exactly one CR LF: there is something before the
  final CR LF, and no other CR LF anywhere in the line.
\<close>

definition single_line :: "string \<Rightarrow> bool" where
  "single_line line \<longleftrightarrow>
     2 < length line \<and> drop (length line - 2) line = CRLF \<and> \<not> has_crlf (butlast line)"


text \<open>
  The peek a round performs: none when the \<^verbatim>\<open>select\<close> takes the stop channel, since
  the worker then returns before it peeks.
\<close>

definition peeked :: "tick_env \<Rightarrow> peek_result option" where
  "peeked t = (if ctx_done t then None else Some (peek t))"

text \<open>A round on which the peer does not react and the write goes through.\<close>

definition quiet_tick :: "tick_env \<Rightarrow> bool" where
  "quiet_tick t \<longleftrightarrow> \<not> ctx_done t \<and> peek t = PeekTimeout \<and> write_res t = WriteOk"

text \<open>The configuration \<^verbatim>\<open>parseFlags\<close> returns when no flag is given, and the zero
  statistics the process starts with.\<close>

definition default_Config :: Config where
  "default_Config =
     \<lparr>Target = ''localhost:8080'', NumConns = 100, Delay = 1000000000, Duration = 0,
      KeepOpen = True, Debug = False, ReportInterval = 5000000000\<rparr>"

definition slowloris_stats0 :: slowloris_Stats where
  "slowloris_stats0 =
     \<lparr>activeConns = 0, totalConns = 0, closedByServer = 0, errors = 0, headersSent = 0\<rparr>"

text \<open>Environments used in the examples: a round, and a call whose three leading writes
  succeed with no stop signal.\<close>

definition quiet :: "int \<Rightarrow> tick_env" where
  "quiet nano = \<lparr>ctx_done = False, peek = PeekTimeout, now = nano, write_res = WriteOk\<rparr>"

definition peer_closes :: tick_env where
  "peer_closes = \<lparr>ctx_done = False, peek = PeekClosed, now = 0, write_res = WriteOk\<rparr>"

definition connected_env :: "tick_env list \<Rightarrow> perform_env" where
  "connected_env ts =
     \<lparr>write1 = WriteOk, ctx1 = False, write2 = WriteOk, ctx2 = False, write3 = WriteOk,
      ticks = ts\<rparr>"

section \<open>Properties of the connection state tracker\<close>

lemmas ConnState_defs =
  StateNew_def StateActive_def StateIdle_def StateHijacked_def StateClosed_def

lemma TrackAll_append:
  "TrackAll c (xs @ ys) = TrackAll (TrackAll c xs) ys"
  by (induction xs arbitrary: c) auto

lemma live_entries_New: "live_entries NewConnStateCounter"
  by (simp add: live_entries_def NewConnStateCounter_def)

lemma balanced_New: "balanced NewConnStateCounter"
  by (simp add: balanced_def live_sum_def NewConnStateCounter_def)

lemma connStates_decrementState [simp]:
  "connStates (decrementState c s) = connStates c"
  by (simp add: decrementState_def)

lemma totalAccepted_decrementState [simp]:
  "totalAccepted (decrementState c s) = totalAccepted c"
  by (simp add: decrementState_def)

lemma connStates_Track:
  "connStates (TrackConnState c conn state) =
     (if state = StateNew \<or> state = StateActive \<or> state = StateIdle \<or> state = StateHijacked
      then (connStates c)(conn \<mapsto> state)
      else if state = StateClosed then (connStates c)(conn := None)
      else connStates c)"
  by (simp add: TrackConnState_def Let_def split: option.splits)

lemma live_entries_Track:
  assumes "live_entries c"
  shows "live_entries (TrackConnState c conn state)"
proof -
  let ?live = "{StateNew, StateActive, StateIdle, StateHijacked}"
  have del: "ran ((connStates c)(conn := None)) \<subseteq> ?live"
    using assms by (auto simp: live_entries_def ran_def split: if_splits)
  have upd: "ran ((connStates c)(conn \<mapsto> state)) \<subseteq> ?live" if "state \<in> ?live"
    using assms that by (auto simp: live_entries_def ran_def split: if_splits)
  show ?thesis
    unfolding live_entries_def connStates_Track
    using del upd assms by (auto simp: live_entries_def)
qed

lemma balanced_Track:
  assumes "balanced c" and "live_entries c" and "lifecycle_ok c conn state"
  shows "balanced (TrackConnState c conn state)"
proof (cases "connStates c conn")
  case None
  with assms(3) have "\<not> (state = StateActive \<or> state = StateIdle \<or> state = StateHijacked \<or>
      state = StateClosed)"
    by (simp add: lifecycle_ok_def split: if_splits)
  with None assms(1) show ?thesis
    by (simp add: TrackConnState_def balanced_def live_sum_def algebra_simps)
next
  case (Some prev)
  with assms(2) have "prev \<in> {StateNew, StateActive, StateIdle, StateHijacked}"
    by (auto simp: live_entries_def ran_def)
  then consider "prev = StateNew" | "prev = StateActive" | "prev = StateIdle"
    | "prev = StateHijacked"
    by auto
  note prev = this
  from Some assms(3) consider "state = StateActive" | "state = StateIdle"
    | "state = StateHijacked" | "state = StateClosed"
    by (auto simp: lifecycle_ok_def split: if_splits)
  then show ?thesis
  proof cases
    case 1
    from prev show ?thesis
      using Some assms(1) 1
      by cases
         (simp_all add: TrackConnState_def decrementState_def balanced_def live_sum_def
            ConnState_defs algebra_simps)
  next
    case 2
    from prev show ?thesis
      using Some assms(1) 2
      by cases
         (simp_all add: TrackConnState_def decrementState_def balanced_def live_sum_def
            ConnState_defs algebra_simps)
  next
    case 3
    from prev show ?thesis
      using Some assms(1) 3
      by cases
         (simp_all add: TrackConnState_def decrementState_def balanced_def live_sum_def
            ConnState_defs algebra_simps)
  next
    case 4
    from prev show ?thesis
      using Some assms(1) 4
      by cases
         (simp_all add: TrackConnState_def decrementState_def balanced_def live_sum_def
            ConnState_defs algebra_simps)
  qed
qed

lemma balanced_TrackAll_take:
  assumes "balanced c" and "live_entries c" and "follows_lifecycle c calls"
  shows "balanced (TrackAll c (take n calls))"
  using assms
proof (induction calls arbitrary: c n)
  case Nil
  then show ?case by simp
next
  case (Cons call calls)
  obtain conn state where call: "call = (conn, state)" by (cases call)
  show ?case
  proof (cases n)
    case 0
    with Cons.prems show ?thesis by simp
  next
    case (Suc m)
    from Cons.prems call have "balanced (TrackConnState c conn state)"
      and "live_entries (TrackConnState c conn state)"
      and "follows_lifecycle (TrackConnState c conn state) calls"
      by (simp_all add: balanced_Track live_entries_Track)
    then have "balanced (TrackAll (TrackConnState c conn state) (take m calls))"
      by (rule Cons.IH)
    with Suc call show ?thesis by simp
  qed
qed

lemma connStates_TrackAll_other:
  "conn \<notin> fst ` set calls \<Longrightarrow> connStates (TrackAll c calls) conn = connStates c conn"
  by (induction calls arbitrary: c) (auto simp: connStates_Track)

lemma closed_last_absent:
  assumes "calls = pre @ (conn, StateClosed) # post" and "conn \<notin> fst ` set post"
  shows "connStates (TrackAll c calls) conn = None"
proof -
  have "TrackAll c calls = TrackAll (TrackConnState (TrackAll c pre) conn StateClosed) post"
    by (simp add: assms(1) TrackAll_append)
  with assms(2) show ?thesis
    by (simp add: connStates_TrackAll_other connStates_Track ConnState_defs)
qed

text \<open>
  The calls admitted by \<^const>\<open>lifecycle_ok\<close> are exactly the calls that keep the
  invariant: from a balanced tracker, every other call unbalances it.
\<close>

lemma unbalanced_Track:
  assumes "balanced c" and "live_entries c" and "\<not> lifecycle_ok c conn state"
  shows "\<not> balanced (TrackConnState c conn state)"
proof (cases "connStates c conn")
  case None
  with assms(3) consider "state = StateActive" | "state = StateIdle"
    | "state = StateHijacked" | "state = StateClosed"
    by (auto simp: lifecycle_ok_def split: if_splits)
  then show ?thesis
    using None assms(1)
    by cases
       (simp_all add: TrackConnState_def balanced_def live_sum_def ConnState_defs algebra_simps)
next
  case (Some prev)
  with assms(2) have "prev \<in> {StateNew, StateActive, StateIdle, StateHijacked}"
    by (auto simp: live_entries_def ran_def)
  then consider "prev = StateNew" | "prev = StateActive" | "prev = StateIdle"
    | "prev = StateHijacked"
    by auto
  note prev = this
  from Some assms(3) have other: "state \<noteq> StateActive" "state \<noteq> StateIdle"
    "state \<noteq> StateHijacked" "state \<noteq> StateClosed"
    by (auto simp: lifecycle_ok_def split: if_splits)
  show ?thesis
  proof (cases "state = StateNew")
    case True
    from prev show ?thesis
      using Some assms(1) True
      by cases
         (simp_all add: TrackConnState_def decrementState_def balanced_def live_sum_def
            ConnState_defs algebra_simps)
  next
    case False
    from prev show ?thesis
      using Some assms(1) False other
      by cases
         (simp_all add: TrackConnState_def decrementState_def balanced_def live_sum_def
            ConnState_defs algebra_simps)
  qed
qed

text \<open>
  C1, as amended. An identity whose last transition was \<^verbatim>\<open>StateClosed\<close> is absent from
  the map, for every sequence of calls. For every sequence of calls on a fresh tracker
  that follows the connection lifecycle (\<^verbatim>\<open>StateActive\<close>, \<^verbatim>\<open>StateIdle\<close>,
  \<^verbatim>\<open>StateHijacked\<close> and \<^verbatim>\<open>StateClosed\<close> only for an identity that is in the map,
  \<^verbatim>\<open>StateNew\<close> and values that are no declared constant only for an identity that is
  not), after every transition the sum of the live counters New + Active + Idle +
  Hijacked equals totalAccepted - totalClosed.
\<close>

theorem tracker_invariant_on_lifecycle:
  "(follows_lifecycle NewConnStateCounter calls \<longrightarrow>
      (\<forall>n. balanced (TrackAll NewConnStateCounter (take n calls)))) \<and>
   (\<forall>pre post conn. calls = pre @ (conn, StateClosed) # post \<and> conn \<notin> fst ` set post
      \<longrightarrow> connStates (TrackAll NewConnStateCounter calls) conn = None)"
  by (auto intro: balanced_TrackAll_take balanced_New live_entries_New closed_last_absent)

theorem tracker_invariant_on_lifecycle_witness:
  "follows_lifecycle NewConnStateCounter
     [(1::nat, StateNew), (1, StateActive), (2, StateNew), (1, StateClosed)] \<and>
   balanced (TrackAll NewConnStateCounter
     [(1::nat, StateNew), (1, StateActive), (2, StateNew), (1, StateClosed)]) \<and>
   connStates (TrackAll NewConnStateCounter
     [(1::nat, StateNew), (1, StateActive), (2, StateNew), (1, StateClosed)]) 1 = None"
proof -
  let ?calls = "[(1::nat, StateNew), (1, StateActive), (2, StateNew), (1, StateClosed)]"
  have h: "follows_lifecycle NewConnStateCounter ?calls"
    by (simp add: lifecycle_ok_def connStates_Track NewConnStateCounter_def ConnState_defs)
  note t = tracker_invariant_on_lifecycle [of ?calls]
  from t h have "balanced (TrackAll NewConnStateCounter (take 4 ?calls))"
    by blast
  then have b: "balanced (TrackAll NewConnStateCounter ?calls)"
    by simp
  have "?calls = [(1, StateNew), (1, StateActive), (2, StateNew)] @ (1, StateClosed) # [] \<and>
        (1::nat) \<notin> fst ` set []"
    by simp
  with t have "connStates (TrackAll NewConnStateCounter ?calls) 1 = None"
    by blast
  with h b show ?thesis by simp
qed

text \<open>
  C1 as stated quantifies over every sequence of calls. The hook does not check the
  state it is given against the map. On a fresh tracker, each of these sequences ends
  with the sum of the live counters different from totalAccepted - totalClosed:
  \<^verbatim>\<open>StateActive\<close> for an identity never reported \<^verbatim>\<open>StateNew\<close> (Active is 1, totalAccepted
  0), also when \<^verbatim>\<open>StateClosed\<close> follows (the sum is back to 0, totalClosed is 1);
  \<^verbatim>\<open>StateNew\<close> twice for one identity (New is 1, totalAccepted 2); and \<^verbatim>\<open>StateNew\<close>
  followed by the value 7, which matches no branch of the switch (New is back to 0,
  totalAccepted 1).
\<close>

theorem tracker_unbalanced_counterexample:
  "\<not> balanced (TrackAll NewConnStateCounter [(0::nat, StateActive)]) \<and>
   \<not> balanced (TrackAll NewConnStateCounter [(0::nat, StateActive), (0, StateClosed)]) \<and>
   \<not> balanced (TrackAll NewConnStateCounter [(0::nat, StateNew), (0, StateNew)]) \<and>
   \<not> balanced (TrackAll NewConnStateCounter [(0::nat, StateNew), (0, 7)])"
  by (simp add: balanced_def live_sum_def TrackConnState_def decrementState_def
      NewConnStateCounter_def ConnState_defs)

text \<open>
  C2, as amended. \<^verbatim>\<open>TrackConnState\<close> adds one to totalAccepted on every \<^verbatim>\<open>StateNew\<close>
  call, also when the identity is already in the map, and leaves totalAccepted
  unchanged on every other state.
\<close>

theorem totalAccepted_counts_every_New:
  "totalAccepted (TrackConnState c conn state) =
     (if state = StateNew then totalAccepted c + 1 else totalAccepted c)"
  by (simp add: TrackConnState_def Let_def ConnState_defs split: option.splits)

text \<open>
  C2 as stated: a second \<^verbatim>\<open>StateNew\<close> for an identity that is in the map would leave
  totalAccepted alone. The switch branch for \<^verbatim>\<open>StateNew\<close> does not look at whether the
  identity existed: after two \<^verbatim>\<open>StateNew\<close> calls for identity 0 the counter is 2.
\<close>

theorem repeated_New_counterexample:
  "connStates (TrackConnState NewConnStateCounter (0::nat) StateNew) 0 \<noteq> None \<and>
   totalAccepted (TrackConnState NewConnStateCounter (0::nat) StateNew) = 1 \<and>
   totalAccepted
     (TrackConnState (TrackConnState NewConnStateCounter (0::nat) StateNew) 0 StateNew) = 2"
  by (simp add: TrackConnState_def decrementState_def NewConnStateCounter_def ConnState_defs)

section \<open>Properties of the latency statistics\<close>

lemma sdiv_nonneg: "0 \<le> a \<Longrightarrow> 0 < b \<Longrightarrow> a sdiv b = a div (b::int)"
  by (simp add: signed_divide_int_def sgn_if)

lemma sdiv_neg: "a < 0 \<Longrightarrow> 0 < b \<Longrightarrow> a sdiv b = - ((- a) div (b::int))"
  by (simp add: signed_divide_int_def sgn_if)

lemma sdiv_between:
  fixes s n a b :: int
  assumes "0 < n" "a * n \<le> s" "s \<le> b * n"
  shows "a \<le> s sdiv n \<and> s sdiv n \<le> b"
proof -
  have cancel: "(k * n) div n = k" for k
    using assms(1) by simp
  have mono: "x \<le> y \<Longrightarrow> x div n \<le> y div n" for x y
    using assms(1) by (simp add: zdiv_mono1)
  show ?thesis
  proof (cases "0 \<le> s")
    case True
    from mono [OF assms(2)] have "a \<le> s div n" by (simp only: cancel)
    moreover from mono [OF assms(3)] have "s div n \<le> b" by (simp only: cancel)
    ultimately show ?thesis using True assms(1) by (simp add: sdiv_nonneg)
  next
    case False
    then have neg: "s < 0" by simp
    have "- s \<le> (- a) * n" using assms(2) by simp
    from mono [OF this] have "(- s) div n \<le> - a" by (simp only: cancel)
    moreover have "(- b) * n \<le> - s" using assms(3) by simp
    from mono [OF this] have "- b \<le> (- s) div n" by (simp only: cancel)
    ultimately show ?thesis using neg assms(1) by (simp add: sdiv_neg)
  qed
qed

lemma sdiv_toward_zero:
  fixes s n :: int
  assumes "0 < n"
  shows "min 0 s \<le> s sdiv n \<and> s sdiv n \<le> max 0 s"
proof (rule sdiv_between [OF assms])
  have "s < 0 \<Longrightarrow> s * n \<le> s * 1"
    using assms by (intro mult_left_mono_neg) simp_all
  then show "min 0 s * n \<le> s"
    by (simp add: min_def)
  have "0 \<le> s \<Longrightarrow> s * 1 \<le> s * n"
    using assms by (intro mult_left_mono) simp_all
  then show "s \<le> max 0 s * n"
    by (simp add: max_def)
qed

lemma foldl_add_sum_list:
  "foldl (\<lambda>sum l. sum + l) a xs = a + sum_list (xs :: 'a::comm_monoid_add list)"
  by (induction xs arbitrary: a) (simp_all add: add.assoc)

lemma word_of_int_sint_same: "word_of_int (sint (x :: int64)) = x"
  by (simp only: of_int_sint scast_id)

lemma word_sum_list_sint:
  "sum_list (xs :: int64 list) = word_of_int (sum_list (map sint xs))"
proof (induction xs)
  case Nil
  show ?case by simp
next
  case (Cons x xs)
  have "word_of_int (sint x + sum_list (map sint xs)) =
      (word_of_int (sint x) :: int64) + word_of_int (sum_list (map sint xs))"
    by (simp only: of_int_add)
  also have "\<dots> = x + sum_list xs"
    using Cons.IH by (simp only: word_of_int_sint_same)
  finally show ?case
    by (simp only: sum_list.Cons list.map)
qed

lemma sint_word_of_int_in_range:
  "- (2 ^ 63) \<le> k \<Longrightarrow> k < 2 ^ 63 \<Longrightarrow> sint (word_of_int k :: int64) = k"
  by (simp add: sint_sbintrunc' signed_take_bit_int_eq_self)

lemma sint_of_nat_in_range:
  "n < 2 ^ 63 \<Longrightarrow> sint (of_nat n :: int64) = int n"
  using sint_word_of_int_in_range [of "int n"] by simp

lemma sum_list_sort_key:
  "sum_list (map f (sort_key k xs)) = sum_list (map f (xs :: 'a list) :: 'b::comm_monoid_add list)"
proof -
  have "sum_mset (image_mset f (mset (sort_key k xs))) = sum_mset (image_mset f (mset xs))"
    by simp
  then show ?thesis
    by (metis mset_map sum_mset_sum_list)
qed


lemma percentile_Nil: "percentile [] p = Some 0"
  by (simp add: percentile_def)

lemma percentile_index:
  assumes "sorted_s \<noteq> []" and "p \<le> 100"
  shows "percentile sorted_s (int p) = Some (sorted_s ! ((length sorted_s - 1) * p div 100))"
    and "(length sorted_s - 1) * p div 100 < length sorted_s"
proof -
  let ?n = "length sorted_s"
  let ?k = "(?n - 1) * p div 100"
  from assms(1) have n: "0 < ?n" by simp
  have "(?n - 1) * p \<le> (?n - 1) * 100"
    using assms(2) by (rule mult_le_mono2)
  then have "?k \<le> (?n - 1) * 100 div 100"
    by (rule div_le_mono)
  then have "?k \<le> ?n - 1"
    by simp
  with n show lt: "?k < ?n"
    by linarith
  have "int ?n - 1 = int (?n - 1)"
    using n by linarith
  then have "(int ?n - 1) * int p = int ((?n - 1) * p)"
    by (simp only: of_nat_mult)
  moreover have "int ((?n - 1) * p) sdiv 100 = int ((?n - 1) * p) div 100"
    by (rule sdiv_nonneg) simp_all
  moreover have "int ((?n - 1) * p) div 100 = int ?k"
    by (simp only: zdiv_int of_nat_numeral)
  ultimately have idx: "((int ?n - 1) * int p) sdiv 100 = int ?k"
    by (simp only:)
  have "percentile sorted_s (int p) =
      (if 0 \<le> int ?k \<and> int ?k < int ?n then Some (sorted_s ! nat (int ?k)) else None)"
    using n by (simp only: percentile_def idx Let_def) simp
  also have "\<dots> = Some (sorted_s ! ?k)"
    using lt by (simp only: nat_int) simp
  finally show "percentile sorted_s (int p) = Some (sorted_s ! ?k)" .
qed

lemma latency_stats_Nil:
  "latency_stats [] = Some \<lparr>avgLatency = 0, p50 = 0, p95 = 0, p99 = 0\<rparr>"
  by (simp add: latency_stats_def)

lemma of_nat_length_nonzero:
  assumes "xs \<noteq> []" and "length xs < 2 ^ 63"
  shows "(of_nat (length xs) :: int64) \<noteq> 0"
proof
  assume "(of_nat (length xs) :: int64) = 0"
  then have "sint (of_nat (length xs) :: int64) = 0" by simp
  with assms(2) have "int (length xs) = 0" by (simp add: sint_of_nat_in_range)
  with assms(1) show False by simp
qed

lemma latency_stats_nonempty:
  assumes "samples \<noteq> []" and "length samples < 2 ^ 63"
  shows "latency_stats samples =
     Some \<lparr>avgLatency =
              word_of_int (sint (sum_list samples) sdiv int (length samples)),
           p50 = sort_key sint samples ! ((length samples - 1) * 50 div 100),
           p95 = sort_key sint samples ! ((length samples - 1) * 95 div 100),
           p99 = sort_key sint samples ! ((length samples - 1) * 99 div 100)\<rparr>"
proof -
  let ?ys = "sort_key sint samples"
  have len: "length ?ys = length samples"
    by (rule length_sort)
  have pos: "0 < length samples"
    using assms(1) by simp
  have ne: "?ys \<noteq> []"
    using pos len by (metis length_greater_0_conv)
  have "sum_list (map (\<lambda>x. x) ?ys) = sum_list (map (\<lambda>x. x) samples)"
    by (rule sum_list_sort_key)
  then have "sum_list ?ys = sum_list samples"
    by (simp only: list.map_ident)
  then have sum: "foldl (\<lambda>sum l. sum + l) 0 ?ys = sum_list samples"
    by (simp only: foldl_add_sum_list add_0_left)
  have "sint (of_nat (length samples) :: int64) = int (length samples)"
    using assms(2) by (rule sint_of_nat_in_range)
  then have avg: "int64_div (sum_list samples) (of_nat (length samples)) =
      Some (word_of_int (sint (sum_list samples) sdiv int (length samples)))"
    using of_nat_length_nonzero [OF assms] by (simp only: int64_div_def if_False)
  have q50: "percentile ?ys 50 = Some (?ys ! ((length samples - 1) * 50 div 100))"
    using percentile_index(1) [OF ne, of 50] by (simp only: len of_nat_numeral)
  have q95: "percentile ?ys 95 = Some (?ys ! ((length samples - 1) * 95 div 100))"
    using percentile_index(1) [OF ne, of 95] by (simp only: len of_nat_numeral)
  have q99: "percentile ?ys 99 = Some (?ys ! ((length samples - 1) * 99 div 100))"
    using percentile_index(1) [OF ne, of 99] by (simp only: len of_nat_numeral)
  have "latency_stats samples =
      (case int64_div (foldl (\<lambda>sum l. sum + l) 0 ?ys) (of_nat (length ?ys)) of
         None \<Rightarrow> None
       | Some avg \<Rightarrow>
           (case percentile ?ys 50 of
              None \<Rightarrow> None
            | Some q50 \<Rightarrow>
                (case percentile ?ys 95 of
                   None \<Rightarrow> None
                 | Some q95 \<Rightarrow>
                     (case percentile ?ys 99 of
                        None \<Rightarrow> None
                      | Some q99 \<Rightarrow>
                          Some \<lparr>avgLatency = avg, p50 = q50, p95 = q95, p99 = q99\<rparr>))))"
    using pos by (simp only: latency_stats_def Let_def if_True)
  then show ?thesis
    by (simp only: sum len avg q50 q95 q99 option.case)
qed

lemma sum_list_between:
  fixes f :: "'a \<Rightarrow> int"
  assumes "\<forall>x\<in>set xs. a \<le> f x \<and> f x \<le> b"
  shows "a * int (length xs) \<le> sum_list (map f xs) \<and>
         sum_list (map f xs) \<le> b * int (length xs)"
  using assms by (induction xs) (auto simp: algebra_simps)

lemma sorted_sint_nth_mono:
  assumes "i \<le> j" and "j < length xs"
  shows "sint (sort_key sint xs ! i) \<le> sint (sort_key sint (xs :: int64 list) ! j)"
proof -
  let ?ys = "sort_key sint xs"
  have "sorted (map sint ?ys)"
    by (rule sorted_sort_key)
  moreover have j: "j < length (map sint ?ys)"
    using assms(2) by simp
  ultimately have "map sint ?ys ! i \<le> map sint ?ys ! j"
    using assms(1) by (simp only: sorted_nth_mono)
  moreover have "map sint ?ys ! i = sint (?ys ! i)" and "map sint ?ys ! j = sint (?ys ! j)"
    using assms by (simp_all only: nth_map length_sort order_le_less_trans)
  ultimately show ?thesis by simp
qed

lemma sint_nth_sort_le_Max:
  assumes "i < length xs"
  shows "sint (sort_key sint (xs :: int64 list) ! i) \<le> Max (sint ` set xs)"
proof -
  have "sort_key sint xs ! i \<in> set (sort_key sint xs)"
    using assms by (intro nth_mem) simp
  then have "sint (sort_key sint xs ! i) \<in> sint ` set xs"
    by simp
  then show ?thesis
    by (intro Max_ge) simp_all
qed

lemma average_between:
  fixes samples :: "int64 list"
  assumes ne: "samples \<noteq> []" and len: "length samples < 2 ^ 63"
    and lo: "- (2 ^ 63) \<le> sum_list (map sint samples)"
    and hi: "sum_list (map sint samples) < 2 ^ 63"
  defines "avg \<equiv> word_of_int (sint (sum_list samples) sdiv int (length samples)) :: int64"
  shows "sint avg = sum_list (map sint samples) sdiv int (length samples)"
    and "Min (sint ` set samples) \<le> sint avg"
    and "sint avg \<le> Max (sint ` set samples)"
proof -
  let ?S = "sum_list (map sint samples)"
  let ?n = "int (length samples)"
  have n: "0 < ?n" using ne by simp
  have S: "sint (sum_list samples) = ?S"
    using lo hi by (subst word_sum_list_sint) (simp add: sint_word_of_int_in_range)
  from sdiv_toward_zero [OF n, of ?S] lo hi
  have "- (2 ^ 63) \<le> ?S sdiv ?n" and "?S sdiv ?n < 2 ^ 63"
    by (simp_all add: min_def max_def split: if_splits)
  then show avg: "sint avg = ?S sdiv ?n"
    by (simp add: avg_def S sint_word_of_int_in_range)
  have "\<forall>x\<in>set samples. Min (sint ` set samples) \<le> sint x \<and>
          sint x \<le> Max (sint ` set samples)"
    by simp
  from sum_list_between [OF this]
  have "Min (sint ` set samples) * ?n \<le> ?S" and "?S \<le> Max (sint ` set samples) * ?n"
    by simp_all
  from sdiv_between [OF n this]
  show "Min (sint ` set samples) \<le> sint avg" and "sint avg \<le> Max (sint ` set samples)"
    by (simp_all add: avg)
qed


text \<open>
  C3. \<^verbatim>\<open>percentile\<close> is the nearest-rank method: on a non-empty slice it returns the
  element at index \<open>(n - 1) * p div 100\<close> (for \<open>p\<close> up to 100), and 0 on an empty slice.
  \<^verbatim>\<open>printResults\<close> sorts the samples into ascending order and reports the elements at
  these indices for 50, 95 and 99; with no sample it reports 0 throughout. For the ten
  samples 1 ms to 10 ms it reports P50 = 5 ms, P95 = 9 ms and P99 = 9 ms.
\<close>

theorem percentile_nearest_rank:
  "(sorted_s \<noteq> [] \<and> p \<le> 100 \<longrightarrow>
      percentile sorted_s (int p) = Some (sorted_s ! ((length sorted_s - 1) * p div 100))) \<and>
   percentile [] q = Some 0 \<and>
   (samples \<noteq> [] \<and> length samples < 2 ^ 63 \<longrightarrow>
      sorted (map sint (sort_key sint samples)) \<and>
      mset (sort_key sint samples) = mset samples \<and>
      (\<exists>avg. latency_stats samples =
         Some \<lparr>avgLatency = avg,
               p50 = sort_key sint samples ! ((length samples - 1) * 50 div 100),
               p95 = sort_key sint samples ! ((length samples - 1) * 95 div 100),
               p99 = sort_key sint samples ! ((length samples - 1) * 99 div 100)\<rparr>)) \<and>
   latency_stats [] = Some \<lparr>avgLatency = 0, p50 = 0, p95 = 0, p99 = 0\<rparr> \<and>
   latency_stats (map (\<lambda>k. k * Millisecond) [1, 2, 3, 4, 5, 6, 7, 8, 9, 10]) =
     Some \<lparr>avgLatency = 5500000, p50 = 5 * Millisecond, p95 = 9 * Millisecond,
           p99 = 9 * Millisecond\<rparr>"
proof (intro conjI impI)
  assume "sorted_s \<noteq> [] \<and> p \<le> 100"
  then show "percentile sorted_s (int p) =
      Some (sorted_s ! ((length sorted_s - 1) * p div 100))"
    by (simp add: percentile_index(1))
next
  show "percentile [] q = Some 0"
    by (rule percentile_Nil)
next
  show "sorted (map sint (sort_key sint samples))"
    by (rule sorted_sort_key)
next
  show "mset (sort_key sint samples) = mset samples"
    by (rule mset_sort)
next
  assume "samples \<noteq> [] \<and> length samples < 2 ^ 63"
  then show "\<exists>avg. latency_stats samples =
         Some \<lparr>avgLatency = avg,
               p50 = sort_key sint samples ! ((length samples - 1) * 50 div 100),
               p95 = sort_key sint samples ! ((length samples - 1) * 95 div 100),
               p99 = sort_key sint samples ! ((length samples - 1) * 99 div 100)\<rparr>"
    by (simp add: latency_stats_nonempty)
next
  show "latency_stats [] = Some \<lparr>avgLatency = 0, p50 = 0, p95 = 0, p99 = 0\<rparr>"
    by (rule latency_stats_Nil)
next
  show "latency_stats (map (\<lambda>k. k * Millisecond) [1, 2, 3, 4, 5, 6, 7, 8, 9, 10]) =
     Some \<lparr>avgLatency = 5500000, p50 = 5 * Millisecond, p95 = 9 * Millisecond,
           p99 = 9 * Millisecond\<rparr>"
    by (simp add: latency_stats_def percentile_def int64_div_def Millisecond_def)
qed

theorem percentile_nearest_rank_witness:
  "percentile [10, 20, 30, 40] 50 = Some 20 \<and>
   sort_key sint [40, 10, 30, 20 :: Duration] = [10, 20, 30, 40] \<and>
   (\<exists>avg. latency_stats [40, 10, 30, 20] =
      Some \<lparr>avgLatency = avg, p50 = 20, p95 = 30, p99 = 30\<rparr>)"
proof -
  have s: "sort_key sint [40, 10, 30, 20 :: Duration] = [10, 20, 30, 40]"
    by simp
  have h1: "[10, 20, 30, 40 :: Duration] \<noteq> [] \<and> (50::nat) \<le> 100"
    by simp
  have h2: "[40, 10, 30, 20 :: Duration] \<noteq> [] \<and> length [40, 10, 30, 20 :: Duration] < 2 ^ 63"
    by simp
  note t = percentile_nearest_rank [of "[10, 20, 30, 40]" 50 0 "[40, 10, 30, 20]"]
  from t h1 have "percentile [10, 20, 30, 40] (int 50) =
      Some ([10, 20, 30, 40] ! ((length [10, 20, 30, 40 :: Duration] - 1) * 50 div 100))"
    by blast
  then have a: "percentile [10, 20, 30, 40] 50 = Some 20"
    by simp
  from t h2 have "\<exists>avg. latency_stats [40, 10, 30, 20] =
      Some \<lparr>avgLatency = avg,
        p50 = sort_key sint [40, 10, 30, 20] ! ((length [40, 10, 30, 20 :: Duration] - 1) * 50 div 100),
        p95 = sort_key sint [40, 10, 30, 20] ! ((length [40, 10, 30, 20 :: Duration] - 1) * 95 div 100),
        p99 = sort_key sint [40, 10, 30, 20] ! ((length [40, 10, 30, 20 :: Duration] - 1) * 99 div 100)\<rparr>"
    by blast
  then have "\<exists>avg. latency_stats [40, 10, 30, 20] =
      Some \<lparr>avgLatency = avg, p50 = 20, p95 = 30, p99 = 30\<rparr>"
    by (simp only: s) simp
  with a s show ?thesis by simp
qed

text \<open>
  C7, as amended. For every non-empty sample list, the reported percentiles satisfy
  P50 \<le> P95 \<le> P99 \<le> max(sample); and when the sum of the samples fits in the signed
  64-bit nanosecond count, the reported average is that sum divided by the number of
  samples (truncated) and min(sample) \<le> average \<le> max(sample).
\<close>

theorem stats_ordered_when_sum_fits:
  assumes "samples \<noteq> []" and "length samples < 2 ^ 63"
  shows "\<exists>r. latency_stats samples = Some r \<and>
           sint (p50 r) \<le> sint (p95 r) \<and> sint (p95 r) \<le> sint (p99 r) \<and>
           sint (p99 r) \<le> Max (sint ` set samples) \<and>
           (- (2 ^ 63) \<le> sum_list (map sint samples) \<and>
            sum_list (map sint samples) < 2 ^ 63 \<longrightarrow>
              sint (avgLatency r) = sum_list (map sint samples) sdiv int (length samples) \<and>
              Min (sint ` set samples) \<le> sint (avgLatency r) \<and>
              sint (avgLatency r) \<le> Max (sint ` set samples))"
proof -
  let ?n = "length samples"
  have i99: "(?n - 1) * 99 div 100 < ?n"
    using percentile_index(2) [OF assms(1), of 99] by simp
  have "(?n - 1) * 50 div 100 \<le> (?n - 1) * 95 div 100"
    by (intro div_le_mono) simp
  moreover have "(?n - 1) * 95 div 100 \<le> (?n - 1) * 99 div 100"
    by (intro div_le_mono) simp
  ultimately show ?thesis
    using i99 average_between [OF assms]
    by (simp add: latency_stats_nonempty [OF assms] sorted_sint_nth_mono sint_nth_sort_le_Max)
qed

theorem stats_ordered_when_sum_fits_witness:
  "\<exists>r. latency_stats [40, 10, 30, 25] = Some r \<and>
       sint (p50 r) \<le> sint (p95 r) \<and> sint (p95 r) \<le> sint (p99 r) \<and>
       sint (p99 r) \<le> Max (sint ` set [40, 10, 30, 25 :: Duration]) \<and>
       sint (avgLatency r) = 26 \<and>
       Min (sint ` set [40, 10, 30, 25 :: Duration]) \<le> sint (avgLatency r) \<and>
       sint (avgLatency r) \<le> Max (sint ` set [40, 10, 30, 25 :: Duration])"
proof -
  have h1: "[40, 10, 30, 25 :: Duration] \<noteq> []"
    and h2: "length [40, 10, 30, 25 :: Duration] < 2 ^ 63"
    by simp_all
  have fits: "- (2 ^ 63) \<le> sum_list (map sint [40, 10, 30, 25 :: Duration]) \<and>
      sum_list (map sint [40, 10, 30, 25 :: Duration]) < 2 ^ 63"
    by simp
  have avg: "sum_list (map sint [40, 10, 30, 25 :: Duration]) sdiv
      int (length [40, 10, 30, 25 :: Duration]) = 26"
    by simp
  from stats_ordered_when_sum_fits [OF h1 h2] fits avg show ?thesis
    by metis
qed

text \<open>
  C7 as stated covers every non-empty sample list. The sum is accumulated in an
  \<^verbatim>\<open>int64\<close>: two samples of \<open>2 ^ 62\<close> ns add up to \<open>2 ^ 63\<close>, which wraps to
  \<open>- 2 ^ 63\<close>, and the reported average \<open>- 2 ^ 62\<close> lies below the smallest sample.
\<close>

theorem average_overflow_counterexample:
  "latency_stats [4611686018427387904, 4611686018427387904] =
     Some \<lparr>avgLatency = - 4611686018427387904, p50 = 4611686018427387904,
           p95 = 4611686018427387904, p99 = 4611686018427387904\<rparr> \<and>
   sint (- 4611686018427387904 :: int64) <
     Min (sint ` set [4611686018427387904, 4611686018427387904 :: int64])"
  by (simp add: latency_stats_def percentile_def int64_div_def)

section \<open>Properties of the worker pool\<close>

lemma sum_list_map_update:
  fixes f :: "'a \<Rightarrow> 'b::ab_group_add"
  assumes "i < length ws"
  shows "sum_list (map f (ws[i := w])) = sum_list (map f ws) - f (ws ! i) + f w"
  using assms
proof (induction ws arbitrary: i)
  case Nil
  then show ?case by simp
next
  case (Cons a ws)
  show ?case
  proof (cases i)
    case 0
    then show ?thesis by simp
  next
    case (Suc j)
    with Cons.prems have "j < length ws" by simp
    from Cons.IH [OF this] Suc show ?thesis
      by (simp add: algebra_simps)
  qed
qed

lemma sum_list_map_update_nat:
  fixes f :: "'a \<Rightarrow> nat"
  assumes "i < length ws"
  shows "sum_list (map f (ws[i := w])) + f (ws ! i) = sum_list (map f ws) + f w"
  using assms
proof (induction ws arbitrary: i)
  case Nil
  then show ?case by simp
next
  case (Cons a ws)
  show ?case
  proof (cases i)
    case 0
    then show ?thesis by simp
  next
    case (Suc j)
    with Cons.prems have "j < length ws" by simp
    from Cons.IH [OF this] Suc show ?thesis
      by simp
  qed
qed

lemma list_all_update:
  assumes "list_all P ws" and "P w"
  shows "list_all P (ws[i := w])"
proof -
  have "set (ws[i := w]) \<subseteq> insert w (set ws)"
    by (rule set_update_subset_insert)
  with assms show ?thesis
    by (auto simp: list_all_iff)
qed

lemma worker_step_balance:
  assumes "worker_step w st = (w', st')"
  shows "totalRequests st' - successCount st' - errorCount st' - in_flight w' =
         totalRequests st - successCount st - errorCount st - in_flight w"
  using assms
  by (cases "(w, st)" rule: worker_step.cases) (auto split: option.splits)

lemma worker_step_counted:
  assumes "worker_step w st = (w', st')"
  shows "totalRequests st' + of_nat (not_yet_counted w') =
         totalRequests st + of_nat (not_yet_counted w)"
  using assms
  by (cases "(w, st)" rule: worker_step.cases) (auto split: option.splits)

lemma worker_step_only_errors:
  assumes "worker_step w st = (w', st')" and "only_errors w"
  shows "only_errors w' \<and> successCount st' = successCount st \<and> latencies st' = latencies st"
  using assms
  by (cases "(w, st)" rule: worker_step.cases) (auto split: option.splits)

lemma run_schedule_balance:
  assumes "run_schedule sched (ws, st) = (ws', st')"
  shows "totalRequests st' - successCount st' - errorCount st' - sum_list (map in_flight ws') =
         totalRequests st - successCount st - errorCount st - sum_list (map in_flight ws)"
  using assms
proof (induction sched arbitrary: ws st)
  case Nil
  then show ?case by simp
next
  case (Cons i sched)
  show ?case
  proof (cases "i < length ws")
    case False
    with Cons show ?thesis by simp
  next
    case True
    obtain w st1 where step: "worker_step (ws ! i) st = (w, st1)"
      by (cases "worker_step (ws ! i) st")
    with True Cons.prems have "run_schedule sched (ws[i := w], st1) = (ws', st')"
      by simp
    note Cons.IH [OF this]
    also have "totalRequests st1 - successCount st1 - errorCount st1 -
          sum_list (map in_flight (ws[i := w])) =
        totalRequests st1 - successCount st1 - errorCount st1 - in_flight w -
          sum_list (map in_flight ws) + in_flight (ws ! i)"
      by (simp only: sum_list_map_update [OF True]) (simp add: algebra_simps)
    also have "\<dots> = totalRequests st - successCount st - errorCount st - in_flight (ws ! i) -
          sum_list (map in_flight ws) + in_flight (ws ! i)"
      by (simp only: worker_step_balance [OF step])
    also have "\<dots> = totalRequests st - successCount st - errorCount st -
          sum_list (map in_flight ws)"
      by (simp add: algebra_simps)
    finally show ?thesis .
  qed
qed

lemma run_schedule_counted:
  assumes "run_schedule sched (ws, st) = (ws', st')"
  shows "totalRequests st' + of_nat (sum_list (map not_yet_counted ws')) =
         totalRequests st + of_nat (sum_list (map not_yet_counted ws))"
  using assms
proof (induction sched arbitrary: ws st)
  case Nil
  then show ?case by simp
next
  case (Cons i sched)
  show ?case
  proof (cases "i < length ws")
    case False
    with Cons show ?thesis by simp
  next
    case True
    obtain w st1 where step: "worker_step (ws ! i) st = (w, st1)"
      by (cases "worker_step (ws ! i) st")
    with True Cons.prems have run: "run_schedule sched (ws[i := w], st1) = (ws', st')"
      by simp
    let ?N = "\<lambda>ws. (of_nat (sum_list (map not_yet_counted ws)) :: int64)"
    let ?n = "\<lambda>w. (of_nat (not_yet_counted w) :: int64)"
    have "(of_nat (sum_list (map not_yet_counted (ws[i := w])) + not_yet_counted (ws ! i)) :: int64) =
        of_nat (sum_list (map not_yet_counted ws) + not_yet_counted w)"
      by (simp only: sum_list_map_update_nat [OF True])
    then have upd: "?N (ws[i := w]) + ?n (ws ! i) = ?N ws + ?n w"
      by (simp only: of_nat_add)
    have "totalRequests st1 + ?N (ws[i := w]) + ?n (ws ! i) =
        totalRequests st1 + (?N (ws[i := w]) + ?n (ws ! i))"
      by (simp only: add.assoc)
    also have "\<dots> = totalRequests st1 + (?N ws + ?n w)"
      by (simp only: upd)
    also have "\<dots> = totalRequests st1 + ?n w + ?N ws"
      by (simp only: add_ac)
    also have "\<dots> = totalRequests st + ?n (ws ! i) + ?N ws"
      by (simp only: worker_step_counted [OF step])
    also have "\<dots> = totalRequests st + ?N ws + ?n (ws ! i)"
      by (simp only: add_ac)
    finally have "totalRequests st1 + ?N (ws[i := w]) = totalRequests st + ?N ws"
      by (simp only: add_right_cancel)
    with Cons.IH [OF run] show ?thesis
      by (simp only:)
  qed
qed

lemma run_schedule_only_errors:
  assumes "run_schedule sched (ws, st) = (ws', st')" and "list_all only_errors ws"
  shows "list_all only_errors ws' \<and> successCount st' = successCount st \<and>
         latencies st' = latencies st"
  using assms
proof (induction sched arbitrary: ws st)
  case Nil
  then show ?case by simp
next
  case (Cons i sched)
  show ?case
  proof (cases "i < length ws")
    case False
    with Cons show ?thesis by simp
  next
    case True
    obtain w st1 where step: "worker_step (ws ! i) st = (w, st1)"
      by (cases "worker_step (ws ! i) st")
    with True Cons.prems have run: "run_schedule sched (ws[i := w], st1) = (ws', st')"
      by simp
    from True Cons.prems(2) have "only_errors (ws ! i)"
      by (simp add: list_all_length)
    from worker_step_only_errors [OF step this]
    have w: "only_errors w" and same: "successCount st1 = successCount st"
      "latencies st1 = latencies st"
      by simp_all
    from Cons.prems(2) w have "list_all only_errors (ws[i := w])"
      by (rule list_all_update)
    from Cons.IH [OF run this] same show ?thesis
      by simp
  qed
qed

lemma in_flight_between_iterations: "between_iterations w \<Longrightarrow> in_flight w = 0"
  by (cases w rule: between_iterations.cases) simp_all

lemma quiescent_nothing_in_flight: "quiescent ws \<Longrightarrow> sum_list (map in_flight ws) = 0"
  by (induction ws) (simp_all add: quiescent_def in_flight_between_iterations)

lemma all_stopped_quiescent: "all_stopped ws \<Longrightarrow> quiescent ws"
  by (induction ws) (simp_all add: quiescent_def all_stopped_def)

lemma all_stopped_all_counted: "all_stopped ws \<Longrightarrow> sum_list (map not_yet_counted ws) = 0"
  by (induction ws) (simp_all add: all_stopped_def)

lemma start_pool_nothing_in_flight:
  "sum_list (map in_flight (fst (start_pool requests))) = 0"
  unfolding start_pool_def by (induction requests) simp_all

lemma start_pool_not_yet_counted:
  "sum_list (map not_yet_counted (fst (start_pool requests))) = length (concat requests)"
  unfolding start_pool_def by (induction requests) simp_all

lemma status_500_is_error:
  assumes "case out of GetFailed \<Rightarrow> False | GotResponse c drained \<Rightarrow> c = 500"
  shows "doRequest out \<noteq> None"
  using assms by (cases out) (simp_all add: doRequest_def)

lemma start_pool_only_errors:
  assumes "all_status 500 requests"
  shows "list_all only_errors (fst (start_pool requests))"
proof -
  have "doRequest (fst r) \<noteq> None" if "todo \<in> set requests" and "r \<in> set todo" for todo r
  proof (rule status_500_is_error)
    from assms that
    show "case fst r of GetFailed \<Rightarrow> False | GotResponse c drained \<Rightarrow> c = 500"
      by (simp add: all_status_def list_all_iff)
  qed
  then show ?thesis
    by (simp add: start_pool_def list_all_iff)
qed

lemma pool_counters:
  assumes "run_schedule sched (start_pool requests) = (ws, st)"
  shows "totalRequests st = successCount st + errorCount st + sum_list (map in_flight ws)"
    and "totalRequests st + of_nat (sum_list (map not_yet_counted ws)) =
         of_nat (length (concat requests))"
proof -
  from assms have run: "run_schedule sched
      (fst (start_pool requests), snd (start_pool requests)) = (ws, st)"
    by simp
  have zero: "totalRequests (snd (start_pool requests)) = 0"
    "successCount (snd (start_pool requests)) = 0"
    "errorCount (snd (start_pool requests)) = 0"
    by (simp_all add: start_pool_def loadgen_stats0_def)
  from run_schedule_balance [OF run]
  have "totalRequests st - successCount st - errorCount st - sum_list (map in_flight ws) = 0"
    by (simp only: zero start_pool_nothing_in_flight) simp
  then show "totalRequests st = successCount st + errorCount st + sum_list (map in_flight ws)"
    by (simp add: algebra_simps)
  from run_schedule_counted [OF run]
  show "totalRequests st + of_nat (sum_list (map not_yet_counted ws)) =
      of_nat (length (concat requests))"
    by (simp only: zero start_pool_not_yet_counted) simp
qed

text \<open>
  C8. For every number of workers, every list of requests per worker and every
  interleaving of their steps: whenever no worker is inside an iteration, and so also
  after all workers have stopped, totalRequests = successCount + errorCount (after all
  have stopped, totalRequests is the number of requests made). One iteration of a
  worker, run to its end, adds 1 to totalRequests and 1 to exactly one of successCount
  and errorCount.
\<close>

theorem counters_add_up_when_quiescent:
  assumes "run_schedule sched (start_pool requests) = (ws, st)"
  shows "(quiescent ws \<longrightarrow> totalRequests st = successCount st + errorCount st) \<and>
         (all_stopped ws \<longrightarrow>
            totalRequests st = successCount st + errorCount st \<and>
            totalRequests st = of_nat (length (concat requests))) \<and>
         snd (run_schedule [0, 0, 0, 0, 0] ([(AtLoopHead, [(out, latency)])], st0)) =
           (case doRequest out of
              Some e \<Rightarrow>
                st0\<lparr>totalRequests := totalRequests st0 + 1,
                    totalLatencyNs := totalLatencyNs st0 + latency,
                    errorCount := errorCount st0 + 1\<rparr>
            | None \<Rightarrow>
                st0\<lparr>totalRequests := totalRequests st0 + 1,
                    totalLatencyNs := totalLatencyNs st0 + latency,
                    successCount := successCount st0 + 1,
                    latencies := latencies st0 @ [latency]\<rparr>)"
proof (intro conjI impI)
  assume "quiescent ws"
  with pool_counters(1) [OF assms]
  show "totalRequests st = successCount st + errorCount st"
    by (simp add: quiescent_nothing_in_flight)
next
  assume "all_stopped ws"
  then have "quiescent ws"
    by (rule all_stopped_quiescent)
  with pool_counters(1) [OF assms]
  show "totalRequests st = successCount st + errorCount st"
    by (simp add: quiescent_nothing_in_flight)
next
  assume "all_stopped ws"
  with pool_counters(2) [OF assms]
  show "totalRequests st = of_nat (length (concat requests))"
    by (simp add: all_stopped_all_counted)
next
  show "snd (run_schedule [0, 0, 0, 0, 0] ([(AtLoopHead, [(out, latency)])], st0)) =
      (case doRequest out of
         Some e \<Rightarrow>
           st0\<lparr>totalRequests := totalRequests st0 + 1,
               totalLatencyNs := totalLatencyNs st0 + latency,
               errorCount := errorCount st0 + 1\<rparr>
       | None \<Rightarrow>
           st0\<lparr>totalRequests := totalRequests st0 + 1,
               totalLatencyNs := totalLatencyNs st0 + latency,
               successCount := successCount st0 + 1,
               latencies := latencies st0 @ [latency]\<rparr>)"
    by (cases "doRequest out") simp_all
qed

theorem counters_add_up_when_quiescent_witness:
  "run_schedule [0, 1, 0, 1, 0, 1, 0, 1, 0, 1, 0, 0, 0, 0, 0]
     (start_pool [[(GotResponse 200 True, 5), (GotResponse 500 True, 7)], [(GetFailed, 9)]]) =
     ([(WorkerDone, []), (WorkerDone, [])],
      \<lparr>totalRequests = 3, successCount = 1, errorCount = 2, totalLatencyNs = 21,
       latencies = [5]\<rparr>) \<and>
   all_stopped [(WorkerDone, []), (WorkerDone, [])] \<and>
   (3 :: int64) = 1 + 2"
proof -
  have run: "run_schedule [0, 1, 0, 1, 0, 1, 0, 1, 0, 1, 0, 0, 0, 0, 0]
     (start_pool [[(GotResponse 200 True, 5), (GotResponse 500 True, 7)], [(GetFailed, 9)]]) =
     ([(WorkerDone, []), (WorkerDone, [])],
      \<lparr>totalRequests = 3, successCount = 1, errorCount = 2, totalLatencyNs = 21,
       latencies = [5]\<rparr>)"
    by (simp add: start_pool_def loadgen_stats0_def doRequest_def)
  have stopped: "all_stopped [(WorkerDone, []), (WorkerDone, [])]"
    by (simp add: all_stopped_def)
  from counters_add_up_when_quiescent [OF run] stopped run show ?thesis
    by simp
qed

text \<open>
  C6. If every request is answered with status 500, then under every interleaving the
  success counter stays 0 and the latency sample list stays empty, so that the reported
  average and percentiles are 0; and whenever no worker is inside an iteration, and so
  after all workers have stopped, errorCount = totalRequests (the number of requests
  made, once all have stopped).
\<close>

theorem all_500_counts_only_errors:
  assumes "all_status 500 requests"
    and "run_schedule sched (start_pool requests) = (ws, st)"
  shows "successCount st = 0 \<and> latencies st = [] \<and>
         latency_stats (latencies st) = Some \<lparr>avgLatency = 0, p50 = 0, p95 = 0, p99 = 0\<rparr> \<and>
         (quiescent ws \<longrightarrow> errorCount st = totalRequests st) \<and>
         (all_stopped ws \<longrightarrow>
            errorCount st = totalRequests st \<and>
            totalRequests st = of_nat (length (concat requests)))"
proof -
  from assms(2) have run: "run_schedule sched
      (fst (start_pool requests), snd (start_pool requests)) = (ws, st)"
    by simp
  from run_schedule_only_errors [OF run start_pool_only_errors [OF assms(1)]]
  have none: "successCount st = 0" and empty: "latencies st = []"
    by (simp_all add: start_pool_def loadgen_stats0_def)
  have q: "errorCount st = totalRequests st" if "quiescent ws"
    using pool_counters(1) [OF assms(2)] that none
    by (simp add: quiescent_nothing_in_flight)
  have "totalRequests st = of_nat (length (concat requests))" if "all_stopped ws"
    using pool_counters(2) [OF assms(2)] that
    by (simp add: all_stopped_all_counted)
  with none empty q show ?thesis
    by (simp add: latency_stats_Nil all_stopped_quiescent)
qed

theorem all_500_counts_only_errors_witness:
  "all_status 500 [[(GotResponse 500 True, 5), (GotResponse 500 False, 7)],
                   [(GotResponse 500 True, 9)]] \<and>
   run_schedule [0, 1, 0, 1, 0, 1, 0, 1, 0, 1, 0, 0, 0, 0]
     (start_pool [[(GotResponse 500 True, 5), (GotResponse 500 False, 7)],
                  [(GotResponse 500 True, 9)]]) =
     ([(WorkerDone, []), (WorkerDone, [])],
      \<lparr>totalRequests = 3, successCount = 0, errorCount = 3, totalLatencyNs = 21,
       latencies = []\<rparr>) \<and>
   all_stopped [(WorkerDone, []), (WorkerDone, [])] \<and>
   latency_stats [] = Some \<lparr>avgLatency = 0, p50 = 0, p95 = 0, p99 = 0\<rparr>"
proof -
  have h: "all_status 500 [[(GotResponse 500 True, 5), (GotResponse 500 False, 7)],
                          [(GotResponse 500 True, 9)]]"
    by (simp add: all_status_def)
  have run: "run_schedule [0, 1, 0, 1, 0, 1, 0, 1, 0, 1, 0, 0, 0, 0]
     (start_pool [[(GotResponse 500 True, 5), (GotResponse 500 False, 7)],
                  [(GotResponse 500 True, 9)]]) =
     ([(WorkerDone, []), (WorkerDone, [])],
      \<lparr>totalRequests = 3, successCount = 0, errorCount = 3, totalLatencyNs = 21,
       latencies = []\<rparr>)"
    by (simp add: start_pool_def loadgen_stats0_def doRequest_def)
  have stopped: "all_stopped [(WorkerDone, []), (WorkerDone, [])]"
    by (simp add: all_stopped_def)
  from all_500_counts_only_errors [OF h run] h run stopped show ?thesis
    by simp
qed

section \<open>Properties of the slow-connection simulator\<close>

subsection \<open>Only headersSent changes inside performSlowloris\<close>

lemma header_tick_frame:
  assumes "header_tick cfg headerNum t (st, conn) = (out, st', conn')"
  shows "st' = st\<lparr>headersSent := headersSent st'\<rparr>"
  using assms
  by (auto simp: header_tick_def Let_def split: if_splits peek_result.splits write_result.splits)

lemma header_loop_frame:
  assumes "header_loop cfg headerNum ts (st, conn) = (r, st', conn')"
  shows "st' = st\<lparr>headersSent := headersSent st'\<rparr>"
  using assms
proof (induction ts arbitrary: headerNum st conn)
  case Nil
  then show ?case by simp
next
  case (Cons t ts)
  obtain out st1 conn1 where tick: "header_tick cfg headerNum t (st, conn) = (out, st1, conn1)"
    by (cases "header_tick cfg headerNum t (st, conn)")
  note f1 = header_tick_frame [OF tick]
  show ?case
  proof (cases out)
    case (Return b)
    with Cons.prems tick have "st' = st1" by simp
    with f1 show ?thesis by simp
  next
    case (Continue h)
    with Cons.prems tick have "header_loop cfg h ts (st1, conn1) = (r, st', conn')"
      by simp
    from Cons.IH [OF this] have "st' = st1\<lparr>headersSent := headersSent st'\<rparr>" .
    also have "\<dots> = st\<lparr>headersSent := headersSent st'\<rparr>"
      by (subst f1) simp
    finally show ?thesis .
  qed
qed

lemma performSlowloris_frame:
  assumes "performSlowloris cfg id' env (st, conn) = (r, st', conn')"
  shows "st' = st\<lparr>headersSent := headersSent st'\<rparr>"
proof (cases "write1 env = WriteOk \<and> \<not> ctx1 env \<and> write2 env = WriteOk \<and> \<not> ctx2 env \<and>
    write3 env = WriteOk")
  case True
  with assms have "header_loop cfg 0 (ticks env)
      (st\<lparr>headersSent := headersSent st + 1 + 1 + 1\<rparr>,
       conn_write (conn_write (conn_write conn (request_line id') WriteOk)
         (host_line (Target cfg)) WriteOk) user_agent_line WriteOk) = (r, st', conn')"
    by (simp add: performSlowloris_def Let_def)
  from header_loop_frame [OF this] show ?thesis
    by simp
next
  case False
  with assms show ?thesis
    by (auto simp: performSlowloris_def Let_def split: write_result.splits if_splits)
qed

subsection \<open>The worker loop\<close>

lemma close_conn_fields:
  "activeConns (close_conn closed st) = activeConns st - 1"
  "totalConns (close_conn closed st) = totalConns st"
  "errors (close_conn closed st) = errors st"
  "headersSent (close_conn closed st) = headersSent st"
  "closedByServer (close_conn closed st) = closedByServer st + (if closed then 1 else 0)"
  by (simp_all add: close_conn_def Let_def)

lemma failed_dials_only_count_errors:
  assumes "list_all (\<lambda>a. \<not> ctx_top a \<and> dial a = DialFailed) script"
  shows "slowlorisWorker cfg id' script (st, conns) =
         (WorkerAtLoopTop, st\<lparr>errors := errors st + of_nat (length script)\<rparr>, conns)"
  using assms
proof (induction script arbitrary: st)
  case Nil
  show ?case by simp
next
  case (Cons a script)
  then have "slowlorisWorker cfg id' (a # script) (st, conns) =
      slowlorisWorker cfg id' script (st\<lparr>errors := errors st + 1\<rparr>, conns)"
    by simp
  also have "\<dots> = (WorkerAtLoopTop,
      st\<lparr>errors := errors st + 1\<rparr>
        \<lparr>errors := errors (st\<lparr>errors := errors st + 1\<rparr>) + of_nat (length script)\<rparr>, conns)"
    using Cons.prems by (intro Cons.IH) simp
  also have "\<dots> = (WorkerAtLoopTop,
      st\<lparr>errors := errors st + of_nat (length (a # script))\<rparr>, conns)"
    by (simp add: algebra_simps)
  finally show ?case .
qed

lemma worker_counts_connections:
  assumes "slowlorisWorker cfg id' script (st, conns) = (status, st', conns')"
  shows "totalConns st' = totalConns st + of_nat (length conns' - length conns) \<and>
         length conns \<le> length conns' \<and>
         activeConns st' = activeConns st + (if status = WorkerInConnection then 1 else 0)"
  using assms
proof (induction script arbitrary: st conns)
  case Nil
  then show ?case by simp
next
  case (Cons a script)
  show ?case
  proof (cases "ctx_top a")
    case True
    with Cons.prems show ?thesis by simp
  next
    case False
    note top = this
    show ?thesis
    proof (cases "dial a")
      case DialFailed
      with top Cons.prems have
        "slowlorisWorker cfg id' script (st\<lparr>errors := errors st + 1\<rparr>, conns) =
           (status, st', conns')"
        by simp
      from Cons.IH [OF this] show ?thesis by simp
    next
      case DialOk
      let ?st2 = "st\<lparr>totalConns := totalConns st + 1, activeConns := activeConns st + 1\<rparr>"
      obtain r st3 conn where perf:
        "performSlowloris cfg id' (perform a) (?st2, []) = (r, st3, conn)"
        by (cases "performSlowloris cfg id' (perform a) (?st2, [])")
      from performSlowloris_frame [OF perf]
      have f: "totalConns st3 = totalConns st + 1" "activeConns st3 = activeConns st + 1"
        by (metis (no_types) slowloris_Stats.select_convs(2) slowloris_Stats.surjective
            slowloris_Stats.update_convs(1,2,5),
            metis (no_types) slowloris_Stats.select_convs(1) slowloris_Stats.surjective
            slowloris_Stats.update_convs(1,2,5))
      show ?thesis
      proof (cases r)
        case StillInLoop
        with top DialOk perf Cons.prems f show ?thesis
          by (auto simp: Let_def)
      next
        case (Finished closed)
        show ?thesis
        proof (cases "ctx_after a")
          case True
          with Finished top DialOk perf Cons.prems f show ?thesis
            by (auto simp: Let_def close_conn_fields)
        next
          case False
          with Finished top DialOk perf Cons.prems have
            "slowlorisWorker cfg id' script (close_conn closed st3, conns @ [conn]) =
               (status, st', conns')"
            by (simp add: Let_def)
          from Cons.IH [OF this] f show ?thesis
            by (auto simp: close_conn_fields Suc_diff_le algebra_simps)
        qed
      qed
    qed
  qed
qed

text \<open>
  C10. A failed dial changes only the dial-error counter: a worker whose dials all
  fail ends with the statistics it started with, except that \<^verbatim>\<open>errors\<close> has grown by
  the number of dials. For every run of the worker, \<^verbatim>\<open>totalConns\<close> has grown by the number
  of connections opened (successful dials), and \<^verbatim>\<open>activeConns\<close> is one higher exactly
  while the worker is inside a connection.
\<close>

theorem failed_dial_changes_only_errors:
  "(list_all (\<lambda>a. \<not> ctx_top a \<and> dial a = DialFailed) script \<longrightarrow>
      slowlorisWorker cfg id' script (st, conns) =
        (WorkerAtLoopTop, st\<lparr>errors := errors st + of_nat (length script)\<rparr>, conns)) \<and>
   (slowlorisWorker cfg id' script (st, conns) = (status, st', conns') \<longrightarrow>
      totalConns st' = totalConns st + of_nat (length conns' - length conns) \<and>
      length conns \<le> length conns' \<and>
      activeConns st' = activeConns st + (if status = WorkerInConnection then 1 else 0))"
  using failed_dials_only_count_errors [of script cfg id' st conns]
    worker_counts_connections [of cfg id' script st conns status st' conns']
  by blast

theorem failed_dial_changes_only_errors_witness:
  "slowlorisWorker default_Config 7
     [\<lparr>ctx_top = False, dial = DialFailed, perform = connected_env [], ctx_after = False\<rparr>,
      \<lparr>ctx_top = False, dial = DialFailed, perform = connected_env [], ctx_after = False\<rparr>]
     (slowloris_stats0, []) =
     (WorkerAtLoopTop, slowloris_stats0\<lparr>errors := 2\<rparr>, []) \<and>
   fst (snd (slowlorisWorker default_Config 7
     [\<lparr>ctx_top = False, dial = DialFailed, perform = connected_env [], ctx_after = False\<rparr>,
      \<lparr>ctx_top = False, dial = DialOk, perform = connected_env [quiet 5],
       ctx_after = False\<rparr>]
     (slowloris_stats0, []))) =
     \<lparr>activeConns = 1, totalConns = 1, closedByServer = 0, errors = 1, headersSent = 4\<rparr>"
proof -
  let ?fail = "\<lparr>ctx_top = False, dial = DialFailed, perform = connected_env [],
    ctx_after = False\<rparr>"
  let ?ok = "\<lparr>ctx_top = False, dial = DialOk, perform = connected_env [quiet 5],
    ctx_after = False\<rparr>"
  have h: "list_all (\<lambda>a. \<not> ctx_top a \<and> dial a = DialFailed) [?fail, ?fail]"
    by simp
  from failed_dial_changes_only_errors [of "[?fail, ?fail]" default_Config 7 slowloris_stats0 "[]"] h
  have a: "slowlorisWorker default_Config 7 [?fail, ?fail] (slowloris_stats0, []) =
      (WorkerAtLoopTop, slowloris_stats0\<lparr>errors := 2\<rparr>, [])"
    by (simp add: slowloris_stats0_def)
  have b: "fst (snd (slowlorisWorker default_Config 7 [?fail, ?ok] (slowloris_stats0, []))) =
      \<lparr>activeConns = 1, totalConns = 1, closedByServer = 0, errors = 1, headersSent = 4\<rparr>"
    by (simp add: slowloris_stats0_def performSlowloris_def header_tick_def connected_env_def
        quiet_def conn_write_def Let_def)
  from a b show ?thesis by simp
qed

subsection \<open>The header loop\<close>

lemma quiet_tick_step:
  assumes "quiet_tick t"
  shows "header_tick cfg headerNum t (st, conn) =
     (if \<not> KeepOpen cfg \<and> 10 \<le> headerNum + 1 then Return False else Continue (headerNum + 1),
      st\<lparr>headersSent := headersSent st + 1\<rparr>,
      conn @ [(header_line (headerNum + 1) (now t), WriteOk)])"
  using assms by (simp add: quiet_tick_def header_tick_def Let_def conn_write_def)

lemma quiet_loop_continues:
  assumes "list_all quiet_tick ts" and "KeepOpen cfg \<or> headerNum + int (length ts) < 10"
  shows "\<exists>conn'. header_loop cfg headerNum ts (st, conn) =
           (StillInLoop, st\<lparr>headersSent := headersSent st + of_nat (length ts)\<rparr>, conn') \<and>
         length conn' = length conn + length ts"
  using assms
proof (induction ts arbitrary: headerNum st conn)
  case Nil
  show ?case by simp
next
  case (Cons t ts)
  let ?st1 = "st\<lparr>headersSent := headersSent st + 1\<rparr>"
  let ?conn1 = "conn @ [(header_line (headerNum + 1) (now t), WriteOk)]"
  from Cons.prems have t: "quiet_tick t" and ts: "list_all quiet_tick ts"
    and go: "KeepOpen cfg \<or> (headerNum + 1) + int (length ts) < 10"
    by auto
  from go have "\<not> (\<not> KeepOpen cfg \<and> 10 \<le> headerNum + 1)"
    by auto
  with quiet_tick_step [OF t, of cfg headerNum st conn]
  have "header_tick cfg headerNum t (st, conn) = (Continue (headerNum + 1), ?st1, ?conn1)"
    by (simp only: if_False simp_thms)
  then have step: "header_loop cfg headerNum (t # ts) (st, conn) =
      header_loop cfg (headerNum + 1) ts (?st1, ?conn1)"
    by simp
  from Cons.IH [OF ts go, of ?st1 ?conn1] obtain conn' where
    "header_loop cfg (headerNum + 1) ts (?st1, ?conn1) =
       (StillInLoop, ?st1\<lparr>headersSent := headersSent ?st1 + of_nat (length ts)\<rparr>, conn')"
    and "length conn' = length ?conn1 + length ts"
    by blast
  with step show ?case
    by (simp add: algebra_simps)
qed

lemma quiet_loop_stops:
  assumes "\<not> KeepOpen cfg" and "list_all quiet_tick ts" and "ts \<noteq> []"
    and "headerNum + int (length ts) = 10"
  shows "\<exists>conn'. header_loop cfg headerNum (ts @ later) (st, conn) =
           (Finished False, st\<lparr>headersSent := headersSent st + of_nat (length ts)\<rparr>, conn') \<and>
         length conn' = length conn + length ts"
  using assms(2-4)
proof (induction ts arbitrary: headerNum st conn)
  case Nil
  then show ?case by simp
next
  case (Cons t ts)
  let ?st1 = "st\<lparr>headersSent := headersSent st + 1\<rparr>"
  let ?conn1 = "conn @ [(header_line (headerNum + 1) (now t), WriteOk)]"
  from Cons.prems have t: "quiet_tick t" and ts: "list_all quiet_tick ts"
    and len: "(headerNum + 1) + int (length ts) = 10"
    by auto
  show ?case
  proof (cases "ts = []")
    case True
    with len have "\<not> KeepOpen cfg \<and> 10 \<le> headerNum + 1"
      using assms(1) by simp
    with quiet_tick_step [OF t, of cfg headerNum st conn]
    have "header_tick cfg headerNum t (st, conn) = (Return False, ?st1, ?conn1)"
      by (simp only: if_True simp_thms)
    with True show ?thesis by simp
  next
    case False
    with len have "\<not> (\<not> KeepOpen cfg \<and> 10 \<le> headerNum + 1)"
      by (cases ts) auto
    with quiet_tick_step [OF t, of cfg headerNum st conn]
    have "header_tick cfg headerNum t (st, conn) = (Continue (headerNum + 1), ?st1, ?conn1)"
      by (simp only: if_False simp_thms)
    then have step: "header_loop cfg headerNum ((t # ts) @ later) (st, conn) =
        header_loop cfg (headerNum + 1) (ts @ later) (?st1, ?conn1)"
      by simp
    from Cons.IH [OF ts False len, of ?st1 ?conn1] obtain conn' where
      "header_loop cfg (headerNum + 1) (ts @ later) (?st1, ?conn1) =
         (Finished False, ?st1\<lparr>headersSent := headersSent ?st1 + of_nat (length ts)\<rparr>, conn')"
      and "length conn' = length ?conn1 + length ts"
      by blast
    with step show ?thesis
      by (simp add: algebra_simps)
  qed
qed

lemma performSlowloris_connected:
  "performSlowloris cfg id' (connected_env ts) (st, conn) =
     header_loop cfg 0 ts
       (st\<lparr>headersSent := headersSent st + 3\<rparr>,
        conn @ [(request_line id', WriteOk), (host_line (Target cfg), WriteOk),
                (user_agent_line, WriteOk)])"
  by (simp add: performSlowloris_def connected_env_def conn_write_def Let_def add.commute)

text \<open>
  C9. With \<^verbatim>\<open>keep-open\<close> disabled, on a connection whose three leading writes succeed
  and whose peeks all time out, \<^verbatim>\<open>performSlowloris\<close> returns false at the tenth custom
  header line and not before: 13 writes in total, \<^verbatim>\<open>headersSent\<close> grown by 13. The
  worker then counts no close by the server.
\<close>

theorem weak_attacker_gives_up_after_ten:
  assumes "\<not> KeepOpen cfg" and "list_all quiet_tick ts" and "length ts = 10"
  shows "(\<exists>conn. performSlowloris cfg id' (connected_env (ts @ later)) (st, []) =
             (Finished False, st\<lparr>headersSent := headersSent st + 13\<rparr>, conn) \<and>
           length conn = 13) \<and>
         (\<forall>k<10. fst (performSlowloris cfg id' (connected_env (take k ts)) (st, [])) =
             StillInLoop) \<and>
         (\<exists>conn. slowlorisWorker cfg id'
             [\<lparr>ctx_top = False, dial = DialOk, perform = connected_env (ts @ later),
               ctx_after = True\<rparr>] (st, conns) =
             (WorkerReturned,
              st\<lparr>totalConns := totalConns st + 1, headersSent := headersSent st + 13\<rparr>,
              conns @ [conn]))"
proof (intro conjI allI impI)
  let ?lead = "[(request_line id', WriteOk), (host_line (Target cfg), WriteOk),
    (user_agent_line, WriteOk)]"
  from assms(3) have ne: "ts \<noteq> []" and ten: "0 + int (length ts) = 10"
    by auto
  from quiet_loop_stops [OF assms(1,2) ne ten,
      of later "st\<lparr>headersSent := headersSent st + 3\<rparr>" "[] @ ?lead"]
  obtain conn where
    "header_loop cfg 0 (ts @ later) (st\<lparr>headersSent := headersSent st + 3\<rparr>, [] @ ?lead) =
       (Finished False,
        st\<lparr>headersSent := headersSent st + 3\<rparr>
          \<lparr>headersSent := headersSent (st\<lparr>headersSent := headersSent st + 3\<rparr>) +
             of_nat (length ts)\<rparr>, conn)"
    and "length conn = length ([] @ ?lead) + length ts"
    by blast
  then have "performSlowloris cfg id' (connected_env (ts @ later)) (st, []) =
           (Finished False, st\<lparr>headersSent := headersSent st + 13\<rparr>, conn) \<and>
         length conn = 13"
    by (simp add: performSlowloris_connected assms(3))
  then show "\<exists>conn. performSlowloris cfg id' (connected_env (ts @ later)) (st, []) =
           (Finished False, st\<lparr>headersSent := headersSent st + 13\<rparr>, conn) \<and>
         length conn = 13"
    by blast
next
  fix k :: nat
  assume k: "k < 10"
  let ?lead = "[(request_line id', WriteOk), (host_line (Target cfg), WriteOk),
    (user_agent_line, WriteOk)]"
  from assms(2) have "list_all quiet_tick (take k ts)"
    by (auto simp: list_all_iff dest: in_set_takeD)
  moreover from k assms(3) have "KeepOpen cfg \<or> 0 + int (length (take k ts)) < 10"
    by simp
  ultimately obtain conn' where
    "header_loop cfg 0 (take k ts) (st\<lparr>headersSent := headersSent st + 3\<rparr>, [] @ ?lead) =
       (StillInLoop,
        st\<lparr>headersSent := headersSent st + 3\<rparr>
          \<lparr>headersSent := headersSent (st\<lparr>headersSent := headersSent st + 3\<rparr>) +
             of_nat (length (take k ts))\<rparr>, conn')"
    using quiet_loop_continues by blast
  then show "fst (performSlowloris cfg id' (connected_env (take k ts)) (st, [])) = StillInLoop"
    by (simp only: performSlowloris_connected fst_conv)
next
  let ?lead = "[(request_line id', WriteOk), (host_line (Target cfg), WriteOk),
    (user_agent_line, WriteOk)]"
  let ?st2 = "st\<lparr>totalConns := totalConns st + 1, activeConns := activeConns st + 1\<rparr>"
  from assms(3) have ne: "ts \<noteq> []" and ten: "0 + int (length ts) = 10"
    by auto
  from quiet_loop_stops [OF assms(1,2) ne ten,
      of later "?st2\<lparr>headersSent := headersSent ?st2 + 3\<rparr>" "[] @ ?lead"]
  obtain conn where
    "header_loop cfg 0 (ts @ later) (?st2\<lparr>headersSent := headersSent ?st2 + 3\<rparr>, [] @ ?lead) =
       (Finished False,
        ?st2\<lparr>headersSent := headersSent ?st2 + 3\<rparr>
          \<lparr>headersSent := headersSent (?st2\<lparr>headersSent := headersSent ?st2 + 3\<rparr>) +
             of_nat (length ts)\<rparr>, conn)"
    by blast
  then have "performSlowloris cfg id' (connected_env (ts @ later)) (?st2, []) =
      (Finished False, ?st2\<lparr>headersSent := headersSent st + 13\<rparr>, conn)"
    by (simp add: performSlowloris_connected assms(3))
  then have "slowlorisWorker cfg id'
      [\<lparr>ctx_top = False, dial = DialOk, perform = connected_env (ts @ later),
        ctx_after = True\<rparr>] (st, conns) =
      (WorkerReturned,
       st\<lparr>totalConns := totalConns st + 1, headersSent := headersSent st + 13\<rparr>,
       conns @ [conn])"
    by (simp add: close_conn_def Let_def)
  then show "\<exists>conn. slowlorisWorker cfg id'
      [\<lparr>ctx_top = False, dial = DialOk, perform = connected_env (ts @ later),
        ctx_after = True\<rparr>] (st, conns) =
      (WorkerReturned,
       st\<lparr>totalConns := totalConns st + 1, headersSent := headersSent st + 13\<rparr>,
       conns @ [conn])"
    by blast
qed

theorem weak_attacker_gives_up_after_ten_witness:
  "\<not> KeepOpen (default_Config\<lparr>KeepOpen := False\<rparr>) \<and>
   list_all quiet_tick (map quiet [1, 2, 3, 4, 5, 6, 7, 8, 9, 10]) \<and>
   (\<exists>conn. performSlowloris (default_Config\<lparr>KeepOpen := False\<rparr>) 0
      (connected_env (map quiet [1, 2, 3, 4, 5, 6, 7, 8, 9, 10] @ [peer_closes]))
      (slowloris_stats0, []) =
      (Finished False, slowloris_stats0\<lparr>headersSent := 13\<rparr>, conn) \<and> length conn = 13) \<and>
   fst (performSlowloris (default_Config\<lparr>KeepOpen := False\<rparr>) 0
      (connected_env (take 9 (map quiet [1, 2, 3, 4, 5, 6, 7, 8, 9, 10])))
      (slowloris_stats0, [])) = StillInLoop"
proof -
  let ?cfg = "default_Config\<lparr>KeepOpen := False\<rparr>"
  let ?ts = "map quiet [1, 2, 3, 4, 5, 6, 7, 8, 9, 10]"
  have h1: "\<not> KeepOpen ?cfg"
    by simp
  have h2: "list_all quiet_tick ?ts"
    by (simp add: quiet_tick_def quiet_def)
  have h3: "length ?ts = 10"
    by simp
  note t = weak_attacker_gives_up_after_ten [OF h1 h2 h3, of 0 "[peer_closes]" slowloris_stats0 "[]"]
  from t have a: "\<exists>conn. performSlowloris ?cfg 0 (connected_env (?ts @ [peer_closes]))
      (slowloris_stats0, []) =
      (Finished False, slowloris_stats0\<lparr>headersSent := headersSent slowloris_stats0 + 13\<rparr>, conn) \<and>
      length conn = 13"
    by blast
  have z: "headersSent slowloris_stats0 + 13 = 13"
    by (simp add: slowloris_stats0_def)
  from t have b: "fst (performSlowloris ?cfg 0 (connected_env (take 9 ?ts))
      (slowloris_stats0, [])) = StillInLoop"
    by (elim conjE allE [of _ 9]) simp
  from a b h1 h2 show ?thesis
    by (simp only: z) simp
qed

subsection \<open>Line breaks in the bytes sent\<close>

lemma CR_neq_LF [simp]: "CR \<noteq> LF" "LF \<noteq> CR"
  by (simp_all add: CR_def LF_def)

lemma has_crlf_Cons:
  "has_crlf (x # s) = ((x = CR \<and> take 1 s = [LF]) \<or> has_crlf s)"
  by (cases s) auto


lemma has_crlf_no_CR:
  "CR \<notin> set p \<Longrightarrow> has_crlf (p @ t) = has_crlf t"
  by (induction p) (auto simp: has_crlf_Cons simp del: has_crlf.simps)

lemma has_crlf_snoc_CR: "has_crlf (t @ [CR]) = has_crlf t"
proof (induction t)
  case Nil
  show ?case by simp
next
  case (Cons x t)
  have "take 1 (t @ [CR]) = [LF] \<longleftrightarrow> take 1 t = [LF]"
    by (cases t) simp_all
  with Cons show ?case
    by (simp add: has_crlf_Cons del: has_crlf.simps)
qed

lemma has_crlf_append_right: "has_crlf t \<Longrightarrow> has_crlf (t @ q)"
proof (induction t)
  case Nil
  then show ?case by simp
next
  case (Cons x t)
  have "take 1 t = [LF] \<Longrightarrow> take 1 (t @ q) = [LF]"
    by (cases t) simp_all
  with Cons show ?case
    by (auto simp: has_crlf_Cons simp del: has_crlf.simps)
qed

lemma has_crlf_append_left: "has_crlf t \<Longrightarrow> has_crlf (p @ t)"
  by (induction p) (simp_all add: has_crlf_Cons del: has_crlf.simps)





lemma single_line_append_CRLF:
  "single_line (body @ CRLF) \<longleftrightarrow> body \<noteq> [] \<and> \<not> has_crlf body"
proof -
  have "butlast (body @ CRLF) = body @ [CR]"
    by (simp add: CRLF_def butlast_append)
  moreover have "2 < length (body @ CRLF) \<longleftrightarrow> body \<noteq> []"
    by (simp add: CRLF_def)
  moreover have "drop (length (body @ CRLF) - 2) (body @ CRLF) = CRLF"
    by (simp add: CRLF_def)
  ultimately show ?thesis
    by (simp only: single_line_def has_crlf_snoc_CR simp_thms)
qed









subsection \<open>The lines the worker writes\<close>

lemma digit_char_in_digits: "d < 10 \<Longrightarrow> digit_char d \<in> set ''0123456789''"
  unfolding digit_char_def by (rule nth_mem) simp

lemma digit_char_not_CR: "d < 10 \<Longrightarrow> digit_char d \<noteq> CR" "d < 10 \<Longrightarrow> CR \<noteq> digit_char d"
  using digit_char_in_digits [of d] by (auto simp: CR_def)

lemma digits_no_CR: "CR \<notin> set (digits n)"
proof (induction n rule: digits.induct)
  case (1 n)
  show ?case
  proof (cases "n < 10")
    case True
    then show ?thesis
      by (subst digits.simps) (simp add: digit_char_not_CR)
  next
    case False
    with 1 have "CR \<notin> set (digits (n div 10))" by simp
    moreover have "digit_char (n mod 10) \<noteq> CR"
      by (rule digit_char_not_CR) simp
    ultimately show ?thesis
      using False by (subst digits.simps) simp
  qed
qed

lemma fmt_d_no_CR: "CR \<notin> set (fmt_d i)"
  by (simp add: fmt_d_def digits_no_CR) (simp add: CR_def)




lemma single_line_header_line: "single_line (header_line headerNum nano)"
proof -
  have "CR \<notin> set (''X-Slowloris-'' @ fmt_d headerNum @ '': '' @ fmt_d nano)"
    using fmt_d_no_CR [of headerNum] fmt_d_no_CR [of nano] by (simp add: CR_def)
  then have "\<not> has_crlf ((''X-Slowloris-'' @ fmt_d headerNum @ '': '' @ fmt_d nano) @ [])"
    by (subst has_crlf_no_CR) simp_all
  then show ?thesis
    unfolding header_line_def
    using single_line_append_CRLF [of "''X-Slowloris-'' @ fmt_d headerNum @ '': '' @ fmt_d nano"]
    by simp
qed

subsection \<open>Every connection log is well formed\<close>








subsection \<open>One round of the header loop\<close>

lemma connection_closed_counts:
  assumes "\<not> ctx_top a" and "dial a = DialOk"
    and perf: "performSlowloris cfg id' (perform a)
      (st\<lparr>totalConns := totalConns st + 1, activeConns := activeConns st + 1\<rparr>, []) =
      (Finished closed, st3, conn3)"
  shows "slowlorisWorker cfg id' [a] (st, conns) =
      (if ctx_after a then WorkerReturned else WorkerAtLoopTop, close_conn closed st3,
       conns @ [conn3])"
    and "closedByServer (close_conn closed st3) = closedByServer st + (if closed then 1 else 0)"
    and "activeConns (close_conn closed st3) = activeConns st"
    and "totalConns (close_conn closed st3) = totalConns st + 1"
proof -
  let ?st2 = "st\<lparr>totalConns := totalConns st + 1, activeConns := activeConns st + 1\<rparr>"
  from assms show "slowlorisWorker cfg id' [a] (st, conns) =
      (if ctx_after a then WorkerReturned else WorkerAtLoopTop, close_conn closed st3,
       conns @ [conn3])"
    by (simp add: Let_def)
  have "closedByServer st3 = closedByServer ?st2" "activeConns st3 = activeConns ?st2"
    "totalConns st3 = totalConns ?st2"
    by (subst performSlowloris_frame [OF perf], simp)+
  then show "closedByServer (close_conn closed st3) =
      closedByServer st + (if closed then 1 else 0)"
    and "activeConns (close_conn closed st3) = activeConns st"
    and "totalConns (close_conn closed st3) = totalConns st + 1"
    by (simp_all add: close_conn_fields)
qed

text \<open>
  C4, as amended. In a round of the header loop (a round peeks only when the stop signal
  has not fired; when it has, the worker returns false): if the peek succeeds, the worker
  returns false, with no write and no counter changed; if the peek fails with a timeout,
  the worker writes exactly one more header line, a single well-formed line, and when
  that write succeeds it counts the line and stays in the loop, except that with
  \<^verbatim>\<open>keep-open\<close> disabled it returns false once this was at least the tenth such line; if
  the peek fails with another error, or the write fails, it returns true. The loop ends
  with the value a round returns. After a return with value \<^verbatim>\<open>closed\<close> the worker has
  counted the connection once in \<^verbatim>\<open>totalConns\<close>, \<^verbatim>\<open>activeConns\<close> is back to what it was
  before the dial, and \<^verbatim>\<open>closedByServer\<close> has grown by one exactly when \<^verbatim>\<open>closed\<close> is
  true.
\<close>

theorem header_round_outcomes:
  "(peeked t = None \<longrightarrow> header_tick cfg headerNum t (st, conn) = (Return False, st, conn)) \<and>
   (peeked t = Some PeekData \<longrightarrow>
      header_tick cfg headerNum t (st, conn) = (Return False, st, conn)) \<and>
   (peeked t = Some PeekTimeout \<and> write_res t = WriteOk \<longrightarrow>
      header_tick cfg headerNum t (st, conn) =
        (if \<not> KeepOpen cfg \<and> 10 \<le> headerNum + 1 then Return False
         else Continue (headerNum + 1),
         st\<lparr>headersSent := headersSent st + 1\<rparr>,
         conn @ [(header_line (headerNum + 1) (now t), WriteOk)])) \<and>
   single_line (header_line (headerNum + 1) (now t)) \<and>
   (peeked t = Some PeekTimeout \<and> write_res t = WriteFailed n \<longrightarrow>
      header_tick cfg headerNum t (st, conn) =
        (Return True, st, conn @ [(header_line (headerNum + 1) (now t), WriteFailed n)])) \<and>
   (peeked t = Some PeekClosed \<longrightarrow>
      header_tick cfg headerNum t (st, conn) = (Return True, st, conn)) \<and>
   (header_tick cfg headerNum t s = (Return b, s') \<longrightarrow>
      header_loop cfg headerNum (t # ts) s = (Finished b, s')) \<and>
   (header_tick cfg headerNum t s = (Continue h, s') \<longrightarrow>
      header_loop cfg headerNum (t # ts) s = header_loop cfg h ts s') \<and>
   (\<not> ctx_top a \<and> dial a = DialOk \<and>
    performSlowloris cfg id' (perform a)
      (st\<lparr>totalConns := totalConns st + 1, activeConns := activeConns st + 1\<rparr>, []) =
      (Finished closed, st3, conn3) \<longrightarrow>
      slowlorisWorker cfg id' [a] (st, conns) =
        (if ctx_after a then WorkerReturned else WorkerAtLoopTop, close_conn closed st3,
         conns @ [conn3]) \<and>
      closedByServer (close_conn closed st3) = closedByServer st + (if closed then 1 else 0) \<and>
      activeConns (close_conn closed st3) = activeConns st \<and>
      totalConns (close_conn closed st3) = totalConns st + 1)"
proof (intro conjI impI)
  assume "peeked t = None"
  then show "header_tick cfg headerNum t (st, conn) = (Return False, st, conn)"
    by (simp add: peeked_def header_tick_def split: if_splits)
next
  assume "peeked t = Some PeekData"
  then show "header_tick cfg headerNum t (st, conn) = (Return False, st, conn)"
    by (simp add: peeked_def header_tick_def split: if_splits)
next
  assume "peeked t = Some PeekTimeout \<and> write_res t = WriteOk"
  then show "header_tick cfg headerNum t (st, conn) =
      (if \<not> KeepOpen cfg \<and> 10 \<le> headerNum + 1 then Return False
       else Continue (headerNum + 1),
       st\<lparr>headersSent := headersSent st + 1\<rparr>,
       conn @ [(header_line (headerNum + 1) (now t), WriteOk)])"
    by (simp add: peeked_def header_tick_def Let_def conn_write_def split: if_splits)
next
  show "single_line (header_line (headerNum + 1) (now t))"
    by (rule single_line_header_line)
next
  assume "peeked t = Some PeekTimeout \<and> write_res t = WriteFailed n"
  then show "header_tick cfg headerNum t (st, conn) =
      (Return True, st, conn @ [(header_line (headerNum + 1) (now t), WriteFailed n)])"
    by (simp add: peeked_def header_tick_def Let_def conn_write_def split: if_splits)
next
  assume "peeked t = Some PeekClosed"
  then show "header_tick cfg headerNum t (st, conn) = (Return True, st, conn)"
    by (simp add: peeked_def header_tick_def split: if_splits)
next
  assume "header_tick cfg headerNum t s = (Return b, s')"
  then show "header_loop cfg headerNum (t # ts) s = (Finished b, s')"
    by simp
next
  assume "header_tick cfg headerNum t s = (Continue h, s')"
  then show "header_loop cfg headerNum (t # ts) s = header_loop cfg h ts s'"
    by simp
next
  assume a: "\<not> ctx_top a \<and> dial a = DialOk \<and>
    performSlowloris cfg id' (perform a)
      (st\<lparr>totalConns := totalConns st + 1, activeConns := activeConns st + 1\<rparr>, []) =
      (Finished closed, st3, conn3)"
  then have top: "\<not> ctx_top a" and ok: "dial a = DialOk"
    and perf: "performSlowloris cfg id' (perform a)
      (st\<lparr>totalConns := totalConns st + 1, activeConns := activeConns st + 1\<rparr>, []) =
      (Finished closed, st3, conn3)"
    by simp_all
  note c = connection_closed_counts [OF top ok perf]
  show "slowlorisWorker cfg id' [a] (st, conns) =
      (if ctx_after a then WorkerReturned else WorkerAtLoopTop, close_conn closed st3,
       conns @ [conn3])"
    by (rule c(1))
  show "closedByServer (close_conn closed st3) = closedByServer st + (if closed then 1 else 0)"
    by (rule c(2))
  show "activeConns (close_conn closed st3) = activeConns st"
    by (rule c(3))
  show "totalConns (close_conn closed st3) = totalConns st + 1"
    by (rule c(4))
qed

theorem header_round_outcomes_witness:
  "header_tick default_Config 0
     \<lparr>ctx_done = False, peek = PeekData, now = 0, write_res = WriteOk\<rparr>
     (slowloris_stats0, []) = (Return False, slowloris_stats0, []) \<and>
   header_tick default_Config 0 (quiet 5) (slowloris_stats0, []) =
     (Continue 1, slowloris_stats0\<lparr>headersSent := 1\<rparr>, [(header_line 1 5, WriteOk)]) \<and>
   header_tick default_Config 2 peer_closes (slowloris_stats0, []) =
     (Return True, slowloris_stats0, []) \<and>
   fst (snd (slowlorisWorker default_Config 7
     [\<lparr>ctx_top = False, dial = DialOk,
       perform = connected_env [quiet 1, quiet 2, peer_closes], ctx_after = True\<rparr>]
     (slowloris_stats0, []))) =
     \<lparr>activeConns = 0, totalConns = 1, closedByServer = 1, errors = 0, headersSent = 5\<rparr>"
proof -
  let ?data = "\<lparr>ctx_done = False, peek = PeekData, now = 0, write_res = WriteOk\<rparr>"
  let ?a = "\<lparr>ctx_top = False, dial = DialOk,
    perform = connected_env [quiet 1, quiet 2, peer_closes], ctx_after = True\<rparr>"
  let ?st3 = "\<lparr>activeConns = 1, totalConns = 1, closedByServer = 0, errors = 0,
    headersSent = 5\<rparr>"
  let ?conn3 = "[(request_line 7, WriteOk), (host_line ''localhost:8080'', WriteOk),
    (user_agent_line, WriteOk), (header_line 1 1, WriteOk), (header_line 2 2, WriteOk)]"
  have p1: "peeked ?data = Some PeekData"
    by (simp add: peeked_def)
  have p2: "peeked (quiet 5) = Some PeekTimeout \<and> write_res (quiet 5) = WriteOk"
    by (simp add: peeked_def quiet_def)
  have p3: "peeked peer_closes = Some PeekClosed"
    by (simp add: peeked_def peer_closes_def)
  have p4: "\<not> ctx_top ?a \<and> dial ?a = DialOk \<and>
    performSlowloris default_Config 7 (perform ?a)
      (slowloris_stats0\<lparr>totalConns := totalConns slowloris_stats0 + 1,
         activeConns := activeConns slowloris_stats0 + 1\<rparr>, []) =
      (Finished True, ?st3, ?conn3)"
    by (simp add: slowloris_stats0_def default_Config_def performSlowloris_def header_tick_def
        connected_env_def quiet_def peer_closes_def conn_write_def Let_def)
  from header_round_outcomes [where t = ?data and cfg = default_Config and headerNum = 0
      and st = slowloris_stats0 and conn = "[]"] p1
  have a: "header_tick default_Config 0 ?data (slowloris_stats0, []) =
      (Return False, slowloris_stats0, [])"
    by blast
  from header_round_outcomes [where t = "quiet 5" and cfg = default_Config and headerNum = 0
      and st = slowloris_stats0 and conn = "[]"] p2
  have "header_tick default_Config 0 (quiet 5) (slowloris_stats0, []) =
      (if \<not> KeepOpen default_Config \<and> (10::int) \<le> 0 + 1 then Return False
       else Continue (0 + 1),
       slowloris_stats0\<lparr>headersSent := headersSent slowloris_stats0 + 1\<rparr>,
       [] @ [(header_line (0 + 1) (now (quiet 5)), WriteOk)])"
    by blast
  then have b: "header_tick default_Config 0 (quiet 5) (slowloris_stats0, []) =
      (Continue 1, slowloris_stats0\<lparr>headersSent := 1\<rparr>, [(header_line 1 5, WriteOk)])"
    by (simp add: default_Config_def slowloris_stats0_def quiet_def)
  from header_round_outcomes [where t = peer_closes and cfg = default_Config and headerNum = 2
      and st = slowloris_stats0 and conn = "[]"] p3
  have c: "header_tick default_Config 2 peer_closes (slowloris_stats0, []) =
      (Return True, slowloris_stats0, [])"
    by blast
  from header_round_outcomes [where a = ?a and cfg = default_Config and id' = 7
      and st = slowloris_stats0 and closed = True and ?st3.0 = ?st3 and ?conn3.0 = ?conn3
      and conns = "[]"] p4
  have "slowlorisWorker default_Config 7 [?a] (slowloris_stats0, []) =
      (if ctx_after ?a then WorkerReturned else WorkerAtLoopTop, close_conn True ?st3,
       [] @ [?conn3])"
    by blast
  then have d: "fst (snd (slowlorisWorker default_Config 7 [?a] (slowloris_stats0, []))) =
      \<lparr>activeConns = 0, totalConns = 1, closedByServer = 1, errors = 0, headersSent = 5\<rparr>"
    by (simp add: close_conn_def Let_def)
  from a b c d show ?thesis
    by simp
qed

text \<open>
  C4 as stated: on a peek that times out the worker sends one more line and remains in
  the loop. With \<^verbatim>\<open>keep-open\<close> disabled, the round that writes the tenth header line
  returns false although its peek timed out and its write succeeded: of eleven such
  rounds the loop takes ten.
\<close>

theorem tenth_line_leaves_loop_counterexample:
  "peeked (quiet 5) = Some PeekTimeout \<and> write_res (quiet 5) = WriteOk \<and>
   header_tick (default_Config\<lparr>KeepOpen := False\<rparr>) 9 (quiet 5) (slowloris_stats0, []) =
     (Return False, slowloris_stats0\<lparr>headersSent := 1\<rparr>, [(header_line 10 5, WriteOk)]) \<and>
   fst (header_loop (default_Config\<lparr>KeepOpen := False\<rparr>) 0
     (map quiet [1, 2, 3, 4, 5, 6, 7, 8, 9, 10, 11]) (slowloris_stats0, [])) = Finished False \<and>
   headersSent (fst (snd (header_loop (default_Config\<lparr>KeepOpen := False\<rparr>) 0
     (map quiet [1, 2, 3, 4, 5, 6, 7, 8, 9, 10, 11]) (slowloris_stats0, [])))) = 10"
  by (simp add: peeked_def quiet_def header_tick_def conn_write_def slowloris_stats0_def
      default_Config_def Let_def)

end
